theory Spec2Isabelle
  imports Main "HOL-Library.Multiset" "HOL-Library.Product_Lexorder"
begin

section \<open>Machine integers and errors\<close>

text \<open>
  The C++ sources compute with \<^verbatim>\<open>int\<close> (32 bits, two's complement). Edge weights are
  user data, so every addition on weights is modelled with the wrap-around written out:
  \<open>add32 a b\<close> is the sum reduced to the range \<open>-2^31 .. 2^31 - 1\<close>. Indices, loop
  counters and the edge counters of the randomized engine are bounded by the size of the
  matrix that holds the graph and are modelled as \<open>nat\<close> and \<open>int\<close>.
\<close>

definition INT_MAX :: int where
  "INT_MAX = 2147483647"

definition wrap32 :: "int \<Rightarrow> int" where
  "wrap32 x = (x + 2147483648) mod 4294967296 - 2147483648"

definition add32 :: "int \<Rightarrow> int \<Rightarrow> int" where
  "add32 a b = wrap32 (a + b)"

text \<open>
  \<open>OutOfBounds\<close>: a vector is indexed with \<open>-1\<close> (the initial value of
  \<^verbatim>\<open>mosttightvertex\<close> and \<^verbatim>\<open>prev\<close>). \<open>DivisionByZero\<close>: \<^verbatim>\<open>rand() % E\<close> with \<open>E = 0\<close>.
\<close>

datatype error = OutOfBounds | DivisionByZero

type_synonym matrix = "int list list"

section \<open>Deterministic engine, linear scan (kargeroptattempt/stoer\_wagner.cpp)\<close>

text \<open>
  The state of one phase: \<^verbatim>\<open>added\<close>, \<^verbatim>\<open>weight\<close>, \<^verbatim>\<open>prev\<close> (\<open>None\<close> is the
  initial \<open>-1\<close>) and \<^verbatim>\<open>last\<close>. The counter \<^verbatim>\<open>unadded\<close> is the recursion argument of
  the loop.
\<close>

record mas_state =
  added :: "int list"
  weight :: "int list"
  prev :: "nat option"
  lastv :: nat

text \<open>Lines 57-64: the scan for the first not-yet-added vertex of maximum weight.\<close>

definition tightest_step :: "int list \<Rightarrow> int list \<Rightarrow> nat \<Rightarrow> nat option \<times> int \<Rightarrow> nat option \<times> int" where
  "tightest_step wt ad i acc =
     (case acc of (mosttightvertex, maxval) \<Rightarrow>
        if wt ! i > maxval \<and> ad ! i = 0 then (Some i, wt ! i) else (mosttightvertex, maxval))"

definition find_tightest :: "nat \<Rightarrow> int list \<Rightarrow> int list \<Rightarrow> nat option" where
  "find_tightest V wt ad = fst (fold (tightest_step wt ad) [0..<V] (None, -1))"

text \<open>Lines 75-79: the weights of the vertices still outside grow by the edge to the new vertex.\<close>

definition update_weights :: "nat \<Rightarrow> matrix \<Rightarrow> nat \<Rightarrow> int list \<Rightarrow> int list \<Rightarrow> int list" where
  "update_weights V G m ad wt =
     fold (\<lambda>i w. if ad ! i = 0 then w[i := add32 (w ! i) (G ! m ! i)] else w) [0..<V] wt"

text \<open>Lines 33-52: vertex 0 is added first and every weight starts as the edge to vertex 0.\<close>

definition phase_init :: "nat \<Rightarrow> matrix \<Rightarrow> mas_state" where
  "phase_init V G =
     \<lparr>added = (replicate V 0)[0 := 1],
      weight = fold (\<lambda>i w. w[i := add32 (w ! i) (G ! i ! 0)]) [0..<V] (replicate V 0),
      prev = None,
      lastv = 0\<rparr>"

text \<open>
  Lines 55-80: \<^verbatim>\<open>while (unadded)\<close>. When the scan finds no vertex, \<^verbatim>\<open>added[-1] = 1\<close> is
  out of bounds.
\<close>

fun grow :: "nat \<Rightarrow> matrix \<Rightarrow> nat \<Rightarrow> mas_state \<Rightarrow> error + mas_state" where
  "grow V G 0 s = Inr s"
| "grow V G (Suc unadded) s =
     (case find_tightest V (weight s) (added s) of
        None \<Rightarrow> Inl OutOfBounds
      | Some m \<Rightarrow>
          grow V G unadded
            \<lparr>added = (added s)[m := 1],
             weight = update_weights V G m ((added s)[m := 1]) (weight s),
             prev = Some (lastv s),
             lastv = m\<rparr>)"

definition min_cut_phase :: "nat \<Rightarrow> matrix \<Rightarrow> error + mas_state" where
  "min_cut_phase V G = grow V G (V - 1) (phase_init V G)"

text \<open>Lines 86-89: the row and column of \<^verbatim>\<open>prev\<close> absorb those of \<^verbatim>\<open>last\<close>, entry by entry.\<close>

definition merge_step :: "nat \<Rightarrow> nat \<Rightarrow> nat \<Rightarrow> matrix \<Rightarrow> matrix" where
  "merge_step p l i G =
     (let G1 = G[p := (G ! p)[i := add32 (G ! p ! i) (G ! l ! i)]]
      in G1[i := (G1 ! i)[p := G1 ! p ! i]])"

definition merge_vertices :: "nat \<Rightarrow> nat \<Rightarrow> nat \<Rightarrow> matrix \<Rightarrow> matrix" where
  "merge_vertices V p l G = fold (merge_step p l) [0..<V] G"

text \<open>Lines 92-95: \<^verbatim>\<open>erase\<close> of column \<^verbatim>\<open>last\<close> in every row, then of row \<^verbatim>\<open>last\<close>.\<close>

definition erase_at :: "nat \<Rightarrow> 'a list \<Rightarrow> 'a list" where
  "erase_at k xs = take k xs @ drop (Suc k) xs"

definition remove_vertex :: "nat \<Rightarrow> nat \<Rightarrow> matrix \<Rightarrow> matrix" where
  "remove_vertex V l G = erase_at l (fold (\<lambda>i M. M[i := erase_at l (M ! i)]) [0..<V] G)"

text \<open>
  Lines 31-97: the phases. The matrix is the caller's (a reference parameter), so the
  model returns it with the result.
\<close>

function sw_loop :: "nat \<Rightarrow> matrix \<Rightarrow> int \<Rightarrow> error + int \<times> matrix" where
  "sw_loop V G mincut =
     (if V > 1 then
        (case min_cut_phase V G of
           Inl e \<Rightarrow> Inl e
         | Inr s \<Rightarrow>
            (case prev s of
               None \<Rightarrow> Inl OutOfBounds
             | Some p \<Rightarrow>
                 sw_loop (V - 1)
                   (remove_vertex V (lastv s) (merge_vertices V p (lastv s) G))
                   (min mincut (weight s ! lastv s))))
      else Inr (mincut, G))"
  by pat_completeness auto
termination
  by (relation "measure (\<lambda>(V, G, mincut). V)") auto

definition stoer_wagner :: "matrix \<Rightarrow> error + int \<times> matrix" where
  "stoer_wagner G = sw_loop (length G) G INT_MAX"

section \<open>Deterministic engine, priority queue (algorithms/stoer\_wagner/stoer\_wagner\_pq.cpp)\<close>

text \<open>
  \<^verbatim>\<open>priority_queue<pair<int,int>>\<close> is a max-heap on pairs ordered lexicographically:
  \<^verbatim>\<open>top\<close> is the greatest element, \<^verbatim>\<open>pop\<close> removes one copy of it. The queue is modelled
  by the list of its elements.
\<close>

type_synonym heap = "(int \<times> nat) list"

definition pq_top :: "heap \<Rightarrow> int \<times> nat" where
  "pq_top q = Max (set q)"

definition pq_pop :: "heap \<Rightarrow> heap" where
  "pq_pop q = remove1 (pq_top q) q"

text \<open>Lines 72-81: pop until the popped vertex is not yet added, or the queue is empty.\<close>

function pop_valid :: "int list \<Rightarrow> heap \<Rightarrow> nat option \<times> heap" where
  "pop_valid ad q =
     (if q = [] then (None, q)
      else if ad ! snd (pq_top q) = 0 then (Some (snd (pq_top q)), pq_pop q)
      else pop_valid ad (pq_pop q))"
  by pat_completeness auto
termination
proof (relation "measure (\<lambda>(ad, q). length q)")
  show "wf (measure (\<lambda>(ad, q). length q))" by simp
next
  fix ad :: "int list" and q :: heap
  assume "q \<noteq> []"
  then have "Max (set q) \<in> set q" by (intro Max_in) simp_all
  then have "length (remove1 (Max (set q)) q) < length q"
    using \<open>q \<noteq> []\<close> by (simp add: length_remove1)
  then show "((ad, pq_pop q), (ad, q)) \<in> measure (\<lambda>(ad, q). length q)"
    by (simp add: pq_pop_def pq_top_def)
qed

text \<open>Lines 56-61.\<close>

definition pq_init_weights :: "nat \<Rightarrow> matrix \<Rightarrow> int list \<times> heap" where
  "pq_init_weights V G =
     fold (\<lambda>i (w, q). if i \<noteq> 0
             then (let w' = w[i := add32 (w ! i) (G ! 0 ! i)] in (w', (w' ! i, i) # q))
             else (w, q))
       [0..<V] (replicate V 0, [])"

definition pq_phase_init :: "nat \<Rightarrow> matrix \<Rightarrow> mas_state \<times> heap" where
  "pq_phase_init V G =
     (\<lparr>added = (replicate V 0)[0 := 1],
       weight = fst (pq_init_weights V G),
       prev = None,
       lastv = 0\<rparr>,
      snd (pq_init_weights V G))"

text \<open>Lines 98-103.\<close>

definition pq_update_weights :: "nat \<Rightarrow> matrix \<Rightarrow> nat \<Rightarrow> int list \<Rightarrow> int list \<times> heap \<Rightarrow> int list \<times> heap" where
  "pq_update_weights V G m ad wq =
     fold (\<lambda>i (w, q). if ad ! i = 0
             then (let w' = w[i := add32 (w ! i) (G ! m ! i)] in (w', (w' ! i, i) # q))
             else (w, q))
       [0..<V] wq"

text \<open>
  Lines 68-104: \<^verbatim>\<open>while (unadded > 0)\<close>, left early when the queue runs empty. The
  state is the phase state and the queue; the result carries the value of
  \<^verbatim>\<open>unadded\<close> at the exit, which line 107 reads.
\<close>

fun grow_pq :: "nat \<Rightarrow> matrix \<Rightarrow> nat \<Rightarrow> mas_state \<times> heap \<Rightarrow> mas_state \<times> heap \<times> nat" where
  "grow_pq V G 0 (s, q) = (s, q, 0)"
| "grow_pq V G (Suc unadded) (s, q) =
     (case pop_valid (added s) q of
        (None, q') \<Rightarrow> (s, q', Suc unadded)
      | (Some m, q') \<Rightarrow>
          (let ad = (added s)[m := 1];
               wq = pq_update_weights V G m ad (weight s, q')
           in grow_pq V G unadded
                (\<lparr>added = ad, weight = fst wq, prev = Some (lastv s), lastv = m\<rparr>, snd wq)))"

definition min_cut_phase_pq :: "nat \<Rightarrow> matrix \<Rightarrow> mas_state \<times> heap \<times> nat" where
  "min_cut_phase_pq V G = grow_pq V G (V - 1) (pq_phase_init V G)"

text \<open>Lines 124-127: row \<^verbatim>\<open>last\<close> is erased first, then the column in the remaining rows.\<close>

definition remove_vertex_pq :: "nat \<Rightarrow> matrix \<Rightarrow> matrix" where
  "remove_vertex_pq l G =
     (let G1 = erase_at l G in fold (\<lambda>i M. M[i := erase_at l (M ! i)]) [0..<length G1] G1)"

function sw_pq_loop :: "nat \<Rightarrow> matrix \<Rightarrow> int \<Rightarrow> int" where
  "sw_pq_loop V G mincut =
     (if V > 1 then
        (case min_cut_phase_pq V G of (s, q, unadded) \<Rightarrow>
           (let mincut' = (if unadded = 0 then min mincut (weight s ! lastv s) else mincut)
            in case prev s of
                 None \<Rightarrow> mincut'
               | Some p \<Rightarrow>
                   sw_pq_loop (V - 1)
                     (remove_vertex_pq (lastv s) (merge_vertices V p (lastv s) G)) mincut'))
      else mincut)"
  by pat_completeness auto
termination
  by (relation "measure (\<lambda>(V, G, mincut). V)") auto

text \<open>
  Line 26 copies the argument; the loop works on the copy. The model returns the
  caller's matrix with the result, as \<open>stoer_wagner\<close> does.
\<close>

definition stoer_wagner_pq :: "matrix \<Rightarrow> int \<times> matrix" where
  "stoer_wagner_pq G_mat = (let G = G_mat in (sw_pq_loop (length G) G INT_MAX, G_mat))"

section \<open>Union-find (class DisjointUnionSets of both randomized sources)\<close>

record DisjointUnionSets =
  rank :: "nat list"
  parent :: "nat list"

definition dus_init :: "nat \<Rightarrow> DisjointUnionSets" where
  "dus_init n = \<lparr>rank = replicate n 0, parent = [0..<n]\<rparr>"

text \<open>
  \<^verbatim>\<open>find\<close> recurses along the parent links and compresses the path on the way back. It
  returns nothing when the links run in a cycle, hence the option.
\<close>

partial_function (option) dus_find :: "DisjointUnionSets \<Rightarrow> nat \<Rightarrow> (nat \<times> DisjointUnionSets) option" where
  "dus_find d i =
     (if parent d ! i = i then Some (i, d)
      else Option.bind (dus_find d (parent d ! i))
             (\<lambda>(r, d'). Some (r, d'\<lparr>parent := (parent d')[i := r]\<rparr>)))"

declare dus_find.simps [code]

definition unionSets :: "DisjointUnionSets \<Rightarrow> nat \<Rightarrow> nat \<Rightarrow> DisjointUnionSets option" where
  "unionSets d x y =
     Option.bind (dus_find d x) (\<lambda>(xRoot, d1).
     Option.bind (dus_find d1 y) (\<lambda>(yRoot, d2).
       Some (if xRoot = yRoot then d2
             else if rank d2 ! xRoot < rank d2 ! yRoot
               then d2\<lparr>parent := (parent d2)[xRoot := yRoot]\<rparr>
             else if rank d2 ! yRoot < rank d2 ! xRoot
               then d2\<lparr>parent := (parent d2)[yRoot := xRoot]\<rparr>
             else d2\<lparr>parent := (parent d2)[yRoot := xRoot],
                     rank := (rank d2)[xRoot := rank d2 ! xRoot + 1]\<rparr>)))"

section \<open>Randomized engine\<close>

type_synonym edge = "nat \<times> nat"

text \<open>
  The conversion of the adjacency matrix into the edge list, the same loop in both
  sources (kargercppver.cpp lines 136-143, kargercppopt.cpp lines 124-131).
\<close>

definition build_edges :: "matrix \<Rightarrow> edge list" where
  "build_edges G =
     fold (\<lambda>i es. fold (\<lambda>j es. if G ! i ! j = 1 then es @ [(i, j)] else es) [i + 1..<length G] es)
       [0..<length G] []"

text \<open>The counting loop that ends both trials: it runs over the first \<open>E\<close> edges.\<close>

fun count_cut :: "edge list \<Rightarrow> DisjointUnionSets \<Rightarrow> int \<Rightarrow> int option" where
  "count_cut [] d cutedges = Some cutedges"
| "count_cut ((u, v) # es) d cutedges =
     Option.bind (dus_find d u) (\<lambda>(subset1, d1).
     Option.bind (dus_find d1 v) (\<lambda>(subset2, d2).
       count_cut es d2 (if subset1 \<noteq> subset2 then cutedges + 1 else cutedges)))"

subsection \<open>Shuffled edge list (mincut/kargeroptattempt/kargercppopt.cpp)\<close>

text \<open>Lines 85-96: one pass over the shuffled list, left as soon as two sets remain.\<close>

fun contract_opt :: "edge list \<Rightarrow> int \<Rightarrow> DisjointUnionSets \<Rightarrow> (int \<times> DisjointUnionSets) option" where
  "contract_opt [] vertices d = Some (vertices, d)"
| "contract_opt ((u, v) # es) vertices d =
     (if vertices \<le> 2 then Some (vertices, d)
      else Option.bind (dus_find d u) (\<lambda>(set1, d1).
           Option.bind (dus_find d1 v) (\<lambda>(set2, d2).
             if set1 \<noteq> set2
             then Option.bind (unionSets d2 set1 set2) (\<lambda>d3. contract_opt es (vertices - 1) d3)
             else contract_opt es vertices d2)))"

definition karger_min_cut_trial_opt :: "nat \<Rightarrow> nat \<Rightarrow> edge list \<Rightarrow> int option" where
  "karger_min_cut_trial_opt V E shuffled_edges =
     Option.bind (contract_opt shuffled_edges (int V) (dus_init V))
       (\<lambda>(vertices, d). count_cut (take E shuffled_edges) d 0)"

text \<open>
  Lines 133-144. \<open>shuffle k\<close> is the permutation that the \<open>k\<close>-th call of
  \<^verbatim>\<open>std::shuffle\<close> applies: the sequence of random draws, fixed. \<open>trials_opt \<dots> n\<close> is the
  state (\<^verbatim>\<open>min_cut\<close>, \<^verbatim>\<open>edges\<close>) after \<open>n\<close> iterations of the loop.
\<close>

fun trials_opt :: "(nat \<Rightarrow> edge list \<Rightarrow> edge list) \<Rightarrow> nat \<Rightarrow> nat \<Rightarrow> edge list \<Rightarrow> nat \<Rightarrow> (int \<times> edge list) option" where
  "trials_opt shuffle V E edges 0 = Some (INT_MAX, edges)"
| "trials_opt shuffle V E edges (Suc n) =
     Option.bind (trials_opt shuffle V E edges n) (\<lambda>(min_cut, es).
       (let es' = shuffle n es in
        Option.bind (karger_min_cut_trial_opt V E es') (\<lambda>cut_size.
          Some (if cut_size < min_cut then cut_size else min_cut, es'))))"

definition karger_min_cut_opt :: "(nat \<Rightarrow> edge list \<Rightarrow> edge list) \<Rightarrow> matrix \<Rightarrow> int \<Rightarrow> int option" where
  "karger_min_cut_opt shuffle G trials =
     (let V = length G; edges = build_edges G; E = length edges
      in map_option fst (trials_opt shuffle V E edges (nat trials)))"

subsection \<open>Random edge index (Min\_Cut/mincut/kargeroptattempt/kargercppver.cpp)\<close>

text \<open>
  \<open>rnd k\<close> is the value of the \<open>k\<close>-th call of \<^verbatim>\<open>rand()\<close>; the number of calls made so far
  is threaded through the trials. Lines 88-109: \<^verbatim>\<open>while (vertices > 2)\<close>, which may run
  forever, hence the option; \<^verbatim>\<open>rand() % E\<close> divides by zero when there is no edge.
\<close>

partial_function (option) contract_ver ::
  "(nat \<Rightarrow> nat) \<Rightarrow> nat \<Rightarrow> edge list \<Rightarrow> nat \<Rightarrow> int \<Rightarrow> DisjointUnionSets
     \<Rightarrow> (error + nat \<times> DisjointUnionSets) option" where
  "contract_ver rnd E edges k vertices d =
     (if vertices > 2 then
        (if E = 0 then Some (Inl DivisionByZero)
         else
           Option.bind (dus_find d (fst (edges ! (rnd k mod E)))) (\<lambda>(subset1, d1).
           Option.bind (dus_find d1 (snd (edges ! (rnd k mod E)))) (\<lambda>(subset2, d2).
             if subset1 = subset2 then contract_ver rnd E edges (Suc k) vertices d2
             else Option.bind (unionSets d2 subset1 subset2)
                    (\<lambda>d3. contract_ver rnd E edges (Suc k) (vertices - 1) d3))))
      else Some (Inr (k, d)))"

declare contract_ver.simps [code]

definition karger_min_cut_trial_ver ::
  "(nat \<Rightarrow> nat) \<Rightarrow> nat \<Rightarrow> nat \<Rightarrow> nat \<Rightarrow> edge list \<Rightarrow> (error + int \<times> nat) option" where
  "karger_min_cut_trial_ver rnd k V E edges =
     Option.bind (contract_ver rnd E edges k (int V) (dus_init V)) (\<lambda>r.
       case r of
         Inl e \<Rightarrow> Some (Inl e)
       | Inr (k', d) \<Rightarrow> map_option (\<lambda>cutedges. Inr (cutedges, k')) (count_cut (take E edges) d 0))"

text \<open>Lines 146-155; the state after \<open>n\<close> iterations is (\<^verbatim>\<open>min_cut\<close>, calls of \<^verbatim>\<open>rand()\<close>).\<close>

fun trials_ver :: "(nat \<Rightarrow> nat) \<Rightarrow> nat \<Rightarrow> nat \<Rightarrow> edge list \<Rightarrow> nat \<Rightarrow> (error + int \<times> nat) option" where
  "trials_ver rnd V E edges 0 = Some (Inr (INT_MAX, 0))"
| "trials_ver rnd V E edges (Suc n) =
     Option.bind (trials_ver rnd V E edges n) (\<lambda>r.
       case r of
         Inl e \<Rightarrow> Some (Inl e)
       | Inr (min_cut, k) \<Rightarrow>
           Option.bind (karger_min_cut_trial_ver rnd k V E edges) (\<lambda>t.
             case t of
               Inl e \<Rightarrow> Some (Inl e)
             | Inr (cut_size, k') \<Rightarrow>
                 Some (Inr (if cut_size < min_cut then cut_size else min_cut, k'))))"

definition karger_min_cut_ver :: "(nat \<Rightarrow> nat) \<Rightarrow> matrix \<Rightarrow> int \<Rightarrow> (error + int) option" where
  "karger_min_cut_ver rnd G trials =
     (let V = length G; edges = build_edges G; E = length edges
      in map_option (map_sum id fst) (trials_ver rnd V E edges (nat trials)))"

section \<open>Vocabulary of the properties\<close>

text \<open>A \<open>V \<times> V\<close> matrix: every row is as long as the matrix has rows.\<close>

definition square :: "matrix \<Rightarrow> bool" where
  "square G = (\<forall>row \<in> set G. length row = length G)"

definition symmetric :: "matrix \<Rightarrow> bool" where
  "symmetric G = (\<forall>i \<in> {..<length G}. \<forall>j \<in> {..<length G}. G ! i ! j = G ! j ! i)"

definition nonneg :: "matrix \<Rightarrow> bool" where
  "nonneg G = (\<forall>i \<in> {..<length G}. \<forall>j \<in> {..<length G}. 0 \<le> G ! i ! j)"

text \<open>
  The total edge weight of the graph: every unordered pair of vertices counted once, a
  self-loop on the diagonal included. \<open>fits\<close>: it is representable as an \<^verbatim>\<open>int\<close>.
\<close>

definition total_weight :: "matrix \<Rightarrow> int" where
  "total_weight G = (\<Sum>i \<in> {..<length G}. \<Sum>j \<in> {i..<length G}. G ! i ! j)"

definition fits :: "matrix \<Rightarrow> bool" where
  "fits G = (total_weight G \<le> INT_MAX)"

text \<open>
  The weight of the cut that separates the vertex set \<open>S\<close> from the other vertices, the
  cuts of a graph on \<open>V\<close> vertices (both sides non-empty), and the global minimum cut.
\<close>

definition cut_weight :: "matrix \<Rightarrow> nat set \<Rightarrow> int" where
  "cut_weight G S = (\<Sum>i \<in> S. \<Sum>j \<in> {..<length G} - S. G ! i ! j)"

definition cuts :: "nat \<Rightarrow> nat set set" where
  "cuts V = Pow {..<V} - {{}, {..<V}}"

definition min_cut :: "matrix \<Rightarrow> int" where
  "min_cut G = Min (cut_weight G ` cuts (length G))"

text \<open>The sum of the edge weights from vertex \<open>v\<close> to the vertices of \<open>A\<close>.\<close>

definition conn :: "matrix \<Rightarrow> nat set \<Rightarrow> nat \<Rightarrow> int" where
  "conn G A v = (\<Sum>a \<in> A. G ! v ! a)"

text \<open>The weight of the edges between the two sides of \<open>S\<close> that lie inside \<open>X\<close>.\<close>

definition cut_within :: "matrix \<Rightarrow> nat set \<Rightarrow> nat set \<Rightarrow> int" where
  "cut_within G S X = (\<Sum>x \<in> X \<inter> S. \<Sum>y \<in> X - S. G ! x ! y)"

text \<open>The vertices that \<^verbatim>\<open>added\<close> marks.\<close>

definition added_set :: "nat \<Rightarrow> int list \<Rightarrow> nat set" where
  "added_set V ad = {j \<in> {..<V}. ad ! j \<noteq> 0}"

text \<open>
  A maximum-adjacency order, latest vertex first: it starts with vertex 0, and every
  later vertex is, among the vertices not yet in the order, one of those most strongly
  connected to the vertices before it.
\<close>

fun ma_order :: "matrix \<Rightarrow> nat \<Rightarrow> nat list \<Rightarrow> bool" where
  "ma_order G V [] = False"
| "ma_order G V [a] = (a = 0 \<and> 0 < V)"
| "ma_order G V (v # A) =
     (ma_order G V A \<and> v < V \<and> v \<notin> set A \<and>
      (\<forall>u \<in> {..<V} - set A. conn G (set A) u \<le> conn G (set A) v))"

text \<open>
  The state of a phase after the vertices of \<open>ord\<close> (latest first) have been added:
  \<^verbatim>\<open>added\<close> marks them, \<^verbatim>\<open>last\<close> and \<^verbatim>\<open>prev\<close> are the two latest, and the weight of
  every vertex still outside is its connection to the added ones; the weight of the
  latest vertex is its connection to the vertices added before it.
\<close>

definition phase_inv :: "matrix \<Rightarrow> nat \<Rightarrow> nat list \<Rightarrow> mas_state \<Rightarrow> bool" where
  "phase_inv G V ord s =
     (length (added s) = V \<and> length (weight s) = V \<and> ma_order G V ord \<and>
      added_set V (added s) = set ord \<and> lastv s = hd ord \<and>
      prev s = (if tl ord = [] then None else Some (hd (tl ord))) \<and>
      (\<forall>i \<in> {..<V} - set ord. weight s ! i = conn G (set ord) i) \<and>
      (tl ord \<noteq> [] \<longrightarrow> weight s ! hd ord = conn G (set (tl ord)) (hd ord)))"

subsection \<open>Merging two vertices\<close>

text \<open>The value that the merge loop writes at \<open>(prev, i)\<close> and \<open>(i, prev)\<close>.\<close>

definition merged_entry :: "matrix \<Rightarrow> nat \<Rightarrow> nat \<Rightarrow> nat \<Rightarrow> int" where
  "merged_entry G p l i =
     add32 (G ! p ! i) (if i = p \<and> l < p then add32 (G ! p ! l) (G ! l ! l) else G ! l ! i)"

text \<open>Erasing position \<open>l\<close>: the element at \<open>a\<close> comes from position \<open>skip l a\<close>.\<close>

definition skip :: "nat \<Rightarrow> nat \<Rightarrow> nat" where
  "skip l a = (if a < l then a else Suc a)"

text \<open>The sum of all entries of the matrix, and the sum of its diagonal.\<close>

definition full_sum :: "matrix \<Rightarrow> int" where
  "full_sum G = (\<Sum>i \<in> {..<length G}. \<Sum>j \<in> {..<length G}. G ! i ! j)"

definition diag_sum :: "matrix \<Rightarrow> int" where
  "diag_sum G = (\<Sum>i \<in> {..<length G}. G ! i ! i)"

text \<open>The weight between two vertices other than \<open>l\<close> once \<open>l\<close> is merged into \<open>p\<close>.\<close>

definition contracted :: "matrix \<Rightarrow> nat \<Rightarrow> nat \<Rightarrow> nat \<Rightarrow> nat \<Rightarrow> int" where
  "contracted G p l i j =
     (if i = p \<and> j = p then G ! p ! p + G ! p ! l + (if l < p then G ! l ! l else 0)
      else if i = p then G ! p ! j + G ! l ! j
      else if j = p then G ! i ! p + G ! i ! l
      else G ! i ! j)"

text \<open>A vertex set of the contracted graph, as a vertex set of the graph before.\<close>

definition lift :: "nat \<Rightarrow> nat \<Rightarrow> nat set \<Rightarrow> nat set" where
  "lift p l S' = (if p \<in> skip l ` S' then insert l (skip l ` S') else skip l ` S')"


subsection \<open>The queue of the priority-queue engine\<close>

text \<open>
  The state of a phase of the priority-queue engine: the invariant of the phase, every
  vertex still outside has an entry with its current weight in the queue, and no entry
  of such a vertex is above its current weight (the stale entries are below it).
\<close>

definition pq_inv :: "matrix \<Rightarrow> nat \<Rightarrow> nat list \<Rightarrow> mas_state \<times> heap \<Rightarrow> bool" where
  "pq_inv G V ord sq =
     (case sq of (s, q) \<Rightarrow>
        phase_inv G V ord s \<and>
        (\<forall>i \<in> {..<V} - set ord. (weight s ! i, i) \<in> set q) \<and>
        (\<forall>e \<in> set q. snd e < V \<and> (snd e \<notin> set ord \<longrightarrow> fst e \<le> weight s ! snd e)))"

subsection \<open>Example matrices\<close>

text \<open>A graph of four vertices with small weights; its minimum cut is 4.\<close>

definition spec_graph :: matrix where
  "spec_graph = [[0, 3, 1, 0], [3, 0, 2, 4], [1, 2, 0, 1], [0, 4, 1, 0]]"

text \<open>
  Matrices whose entries are non-negative values of \<^verbatim>\<open>int\<close>, and whose total edge weight
  is above \<^verbatim>\<open>INT_MAX\<close>.
\<close>

definition heavy_triangle :: matrix where
  "heavy_triangle =
     [[0, 1073741824, 1073741824],
      [1073741824, 0, 1073741824],
      [1073741824, 1073741824, 0]]"


definition heavy_graph :: matrix where
  "heavy_graph =
     [[0, 2147483647, 1431655766, 715827883],
      [2147483647, 0, 2147483646, 1],
      [1431655766, 2147483646, 0, 1073741823],
      [715827883, 1, 1073741823, 0]]"

text \<open>
  Matrices with small entries: a graph with ties among the weights, a graph with loops
  on two vertices, the triangle, a graph of two components with one edge each, and a
  graph of three components with a single edge.
\<close>

definition tied_graph :: matrix where
  "tied_graph = [[0, 2, 2, 1], [2, 0, 1, 2], [2, 1, 0, 2], [1, 2, 2, 0]]"


definition triangle_graph :: matrix where
  "triangle_graph = [[0, 1, 1], [1, 0, 1], [1, 1, 0]]"


definition lone_edge_graph :: matrix where
  "lone_edge_graph = [[0, 1, 0, 0], [1, 0, 0, 0], [0, 0, 0, 0], [0, 0, 0, 0]]"

text \<open>
  Two more matrices whose total edge weight is above \<^verbatim>\<open>INT_MAX\<close>: a connected graph with
  ties, and a graph in which vertex 0 has no edge.
\<close>

definition heavy_tied_graph :: matrix where
  "heavy_tied_graph =
     [[0, 1610612736, 1610612736, 1431655766],
      [1610612736, 0, 0, 1431655766],
      [1610612736, 0, 0, 2147483646],
      [1431655766, 1431655766, 2147483646, 0]]"


subsection \<open>Connected graphs and merged graphs\<close>

text \<open>A graph is connected when every cut has an edge across it.\<close>

definition connected :: "matrix \<Rightarrow> bool" where
  "connected G = (\<forall>S \<in> cuts (length G). cut_weight G S \<noteq> 0)"


subsection \<open>The sets of the union-find structure\<close>

text \<open>The roots among the first \<open>V\<close> elements.\<close>

definition roots :: "nat \<Rightarrow> DisjointUnionSets \<Rightarrow> nat set" where
  "roots V d = {k. k < V \<and> parent d ! k = k}"

text \<open>
  The structure is well formed, with \<open>r i\<close> the representative of \<open>i\<close>: the parent links
  stay below \<open>V\<close> and inside the set of \<open>i\<close>, the representative is a root, a root is its
  own representative, and the rank grows along every parent link (so the links have no
  cycle).
\<close>

definition uf_inv :: "nat \<Rightarrow> DisjointUnionSets \<Rightarrow> (nat \<Rightarrow> nat) \<Rightarrow> bool" where
  "uf_inv V d r =
     (length (parent d) = V \<and> length (rank d) = V \<and>
      (\<forall>i < V. parent d ! i < V \<and> r i < V \<and> parent d ! (r i) = r i \<and>
         r (parent d ! i) = r i \<and> (parent d ! i = i \<longrightarrow> r i = i) \<and>
         (parent d ! i \<noteq> i \<longrightarrow> rank d ! i < rank d ! (parent d ! i))))"

text \<open>The representatives once the root \<open>a\<close> hangs below the root \<open>b\<close>.\<close>

definition relink :: "(nat \<Rightarrow> nat) \<Rightarrow> nat \<Rightarrow> nat \<Rightarrow> nat \<Rightarrow> nat" where
  "relink r a b k = (if r k = a then b else r k)"

section \<open>The edge list of the randomized engine\<close>

lemma fold_snoc_if_conv:
  "fold (\<lambda>x acc. if P x then acc @ [f x] else acc) xs acc = acc @ map f (filter P xs)"
  by (induction xs arbitrary: acc) auto

lemma fold_append_conv:
  "fold (\<lambda>x acc. acc @ g x) xs acc = acc @ concat (map g xs)"
  by (induction xs arbitrary: acc) auto

lemma build_edges_conv:
  "build_edges G =
     concat (map (\<lambda>i. map (Pair i) (filter (\<lambda>j. G ! i ! j = 1) [i + 1..<length G])) [0..<length G])"
  unfolding build_edges_def fold_snoc_if_conv
  by (simp add: fold_append_conv)

lemma set_build_edges:
  "set (build_edges G) = {(i, j). i < j \<and> j < length G \<and> G ! i ! j = 1}"
  by (force simp: build_edges_conv)

lemma distinct_concat_Pair:
  "distinct xs \<Longrightarrow> (\<And>i. i \<in> set xs \<Longrightarrow> distinct (f i)) \<Longrightarrow>
     distinct (concat (map (\<lambda>i. map (Pair i) (f i)) xs))"
  by (induction xs) (auto simp: distinct_map inj_on_def)

lemma distinct_build_edges: "distinct (build_edges G)"
  unfolding build_edges_conv
  by (rule distinct_concat_Pair) simp_all

lemma build_edges_small: "length G < 2 \<Longrightarrow> build_edges G = []"
  by (cases G; cases "tl G") (auto simp: build_edges_def)

text \<open>
  Claim C10. For a \<open>V \<times> V\<close> matrix the edge list holds exactly the pairs \<open>(i, j)\<close> with
  \<open>i < j < V\<close> whose entry \<open>G[i][j]\<close> is exactly 1, each once. An entry with any other
  value, such as a weight 2, gives no edge.
\<close>

theorem build_edges_unit_only:
  "square G \<Longrightarrow>
     set (build_edges G) = {(i, j). i < j \<and> j < length G \<and> G ! i ! j = 1}
     \<and> distinct (build_edges G)"
  by (simp add: set_build_edges distinct_build_edges)

theorem build_edges_unit_only_witness:
  "square [[0, 1, 2], [1, 0, 1], [2, 1, 0]] \<and>
   set (build_edges [[0, 1, 2], [1, 0, 1], [2, 1, 0]]) = {(0, 1), (1, 2)} \<and>
   (0, 2) \<notin> set (build_edges [[0, 1, 2], [1, 0, 1], [2, 1, 0]])"
proof -
  have sq: "square [[0, 1, 2], [1, 0, 1], [2, 1, 0]]" by (simp add: square_def)
  have ev: "build_edges [[0, 1, 2], [1, 0, 1], [2, 1, 0]] = [(0, 1), (1, 2)]" by code_simp
  from build_edges_unit_only [OF sq] show ?thesis using sq by (simp add: ev)
qed

section \<open>The trial driver\<close>

lemma trials_opt_mono:
  "trials_opt shuffle V E edges (Suc n) = Some (a, es') \<Longrightarrow>
     \<exists>b es. trials_opt shuffle V E edges n = Some (b, es) \<and> a \<le> b"
  by (auto simp: Let_def split: Option.bind_splits if_splits)

lemma trials_ver_mono:
  "trials_ver rnd V E edges (Suc n) = Some (Inr (a, k')) \<Longrightarrow>
     \<exists>b k. trials_ver rnd V E edges n = Some (Inr (b, k)) \<and> a \<le> b"
  by (auto split: Option.bind_splits if_splits sum.splits)

lemma nat_succ_cases: "nat (N + 1) = nat N \<or> nat (N + 1) = Suc (nat N)"
  by linarith

subsection \<open>Degenerate graphs\<close>

lemma trial_opt_no_edges: "karger_min_cut_trial_opt V E [] = Some 0"
  by (simp add: karger_min_cut_trial_opt_def)

lemma trials_opt_no_edges:
  "\<forall>k. shuffle k [] = [] \<Longrightarrow>
   trials_opt shuffle V E [] n = Some (if n = 0 then INT_MAX else 0, [])"
  by (induction n) (auto simp: trial_opt_no_edges INT_MAX_def)

lemma trial_ver_no_edges: "V \<le> 2 \<Longrightarrow> karger_min_cut_trial_ver rnd k V E [] = Some (Inr (0, k))"
  by (simp add: karger_min_cut_trial_ver_def contract_ver.simps)

lemma trials_ver_no_edges:
  "V \<le> 2 \<Longrightarrow> trials_ver rnd V E [] n = Some (Inr (if n = 0 then INT_MAX else 0, 0))"
  by (induction n) (auto simp: trial_ver_no_edges INT_MAX_def)

text \<open>
  Claim C3, as the code has it. The randomized entry point has no failure outcome. With
  fewer than two vertices, or with no edge in the list, every trial counts 0 crossing
  edges: the driver returns 0 when \<open>trials \<ge> 1\<close>, and \<open>INT_MAX\<close> only when it runs no
  trial at all. (For the random-index source this is stated for at most two vertices.)
\<close>

theorem degenerate_returns_zero:
  assumes "\<forall>k es. mset (shuffle k es) = mset es"
    and "length G < 2 \<or> build_edges G = []"
  shows "karger_min_cut_opt shuffle G trials = Some (if 1 \<le> trials then 0 else INT_MAX) \<and>
         (length G \<le> 2 \<longrightarrow>
            karger_min_cut_ver rnd G trials = Some (Inr (if 1 \<le> trials then 0 else INT_MAX)))"
proof -
  from assms(2) have e: "build_edges G = []" using build_edges_small by blast
  have "\<forall>k. mset (shuffle k []) = {#}" using assms(1) by simp
  then have s: "\<forall>k. shuffle k [] = []" by simp
  have "karger_min_cut_opt shuffle G trials = Some (if 1 \<le> trials then 0 else INT_MAX)"
    using s by (auto simp: karger_min_cut_opt_def e trials_opt_no_edges)
  moreover have "karger_min_cut_ver rnd G trials = Some (Inr (if 1 \<le> trials then 0 else INT_MAX))"
    if "length G \<le> 2"
    using that by (auto simp: karger_min_cut_ver_def e trials_ver_no_edges)
  ultimately show ?thesis by blast
qed

theorem degenerate_returns_zero_witness:
  "(\<forall>k es. mset ((\<lambda>k es. rev es) k es) = mset (es :: edge list)) \<and> length [[0 :: int]] < 2 \<and>
   karger_min_cut_opt (\<lambda>k es. rev es) [[0]] 1 = Some 0 \<and>
   karger_min_cut_ver (\<lambda>k. k) [[0]] 1 = Some (Inr 0)"
  using degenerate_returns_zero [of "\<lambda>k es. rev es" "[[0]]" 1 "\<lambda>k. k"]
  by simp

text \<open>
  The claim as stated fails: a single vertex, and two vertices without an edge, give the
  same \<open>0\<close> as a graph of two components that has a cut of weight 0.
\<close>

theorem degenerate_conflated:
  "karger_min_cut_opt (\<lambda>k es. es) [[0]] 1 = Some 0 \<and>
   karger_min_cut_opt (\<lambda>k es. es) [[0, 0], [0, 0]] 1 = Some 0 \<and>
   karger_min_cut_opt (\<lambda>k es. es) [[0, 1, 0, 0], [1, 0, 0, 0], [0, 0, 0, 1], [0, 0, 1, 0]] 1 = Some 0 \<and>
   karger_min_cut_ver (\<lambda>k. k) [[0]] 1 = Some (Inr 0) \<and>
   karger_min_cut_ver (\<lambda>k. k) [[0, 0], [0, 0]] 1 = Some (Inr 0)"
  by code_simp

section \<open>Termination of the random-index trial\<close>

lemma contract_ver_stuck:
  assumes "contract_ver rnd E edges k vertices d = Some y"
  shows "\<not> (E = Suc 0 \<and> edges = [(0, Suc 0)] \<and> vertices = 3 \<and>
            d = \<lparr>rank = [Suc 0, 0, 0, 0], parent = [0, 0, 2, 3]\<rparr>)"
proof (rule contract_ver.raw_induct
    [where P = "\<lambda>rnd E edges k vertices d y. \<not> (E = Suc 0 \<and> edges = [(0, Suc 0)] \<and> vertices = 3 \<and>
            d = \<lparr>rank = [Suc 0, 0, 0, 0], parent = [0, 0, 2, 3]\<rparr>)", OF _ assms])
  fix f :: "(nat \<Rightarrow> nat) \<Rightarrow> nat \<Rightarrow> edge list \<Rightarrow> nat \<Rightarrow> int \<Rightarrow> DisjointUnionSets
     \<Rightarrow> (error + nat \<times> DisjointUnionSets) option"
  fix rnd E edges k vertices d y
  assume ih: "\<And>rnd E edges k vertices d y. f rnd E edges k vertices d = Some y \<Longrightarrow>
     \<not> (E = Suc 0 \<and> edges = [(0, Suc 0)] \<and> vertices = 3 \<and>
            d = \<lparr>rank = [Suc 0, 0, 0, 0], parent = [0, 0, 2, 3]\<rparr>)"
  assume body: "(if 2 < vertices
         then if E = 0 then Some (Inl DivisionByZero)
              else Option.bind (dus_find d (fst (edges ! (rnd k mod E))))
                    (\<lambda>(subset1, d1).
                        Option.bind (dus_find d1 (snd (edges ! (rnd k mod E))))
                         (\<lambda>(subset2, d2).
                             if subset1 = subset2 then f rnd E edges (Suc k) vertices d2
                             else Option.bind (unionSets d2 subset1 subset2)
                                   (f rnd E edges (Suc k) (vertices - 1))))
         else Some (Inr (k, d))) = Some y"
  show "\<not> (E = Suc 0 \<and> edges = [(0, Suc 0)] \<and> vertices = 3 \<and>
            d = \<lparr>rank = [Suc 0, 0, 0, 0], parent = [0, 0, 2, 3]\<rparr>)"
  proof
    assume st: "E = Suc 0 \<and> edges = [(0, Suc 0)] \<and> vertices = 3 \<and>
            d = \<lparr>rank = [Suc 0, 0, 0, 0], parent = [0, 0, 2, 3]\<rparr>"
    have f0: "dus_find \<lparr>rank = [Suc 0, 0, 0, 0], parent = [0, 0, 2, 3]\<rparr> 0
                = Some (0, \<lparr>rank = [Suc 0, 0, 0, 0], parent = [0, 0, 2, 3]\<rparr>)"
      by (simp add: dus_find.simps)
    have f1: "dus_find \<lparr>rank = [Suc 0, 0, 0, 0], parent = [0, 0, 2, 3]\<rparr> (Suc 0)
                = Some (0, \<lparr>rank = [Suc 0, 0, 0, 0], parent = [0, 0, 2, 3]\<rparr>)"
      by (simp add: dus_find.simps)
    from body st have "f rnd E edges (Suc k) vertices d = Some y"
      by (simp add: f0 f1)
    from ih [OF this] st show False by blast
  qed
qed

lemma trial_ver_no_edges_divides_by_zero:
  "2 < V \<Longrightarrow> karger_min_cut_trial_ver rnd k V 0 [] = Some (Inl DivisionByZero)"
  by (simp add: karger_min_cut_trial_ver_def contract_ver.simps)

lemma trial_ver_stuck: "karger_min_cut_trial_ver rnd k 4 (Suc 0) [(0, Suc 0)] = None"
proof -
  have i0: "dus_find (dus_init 4) 0 = Some (0, dus_init 4)"
    by (simp add: dus_find.simps dus_init_def)
  have i1: "dus_find (dus_init 4) (Suc 0) = Some (Suc 0, dus_init 4)"
    by (simp add: dus_find.simps dus_init_def)
  have u: "unionSets (dus_init 4) 0 (Suc 0) = Some \<lparr>rank = [Suc 0, 0, 0, 0], parent = [0, 0, 2, 3]\<rparr>"
    by code_simp
  have "contract_ver rnd (Suc 0) [(0, Suc 0)] k 4 (dus_init 4)
          = contract_ver rnd (Suc 0) [(0, Suc 0)] (Suc k) 3 \<lparr>rank = [Suc 0, 0, 0, 0], parent = [0, 0, 2, 3]\<rparr>"
    by (subst contract_ver.simps) (simp add: i0 i1 u)
  moreover have "contract_ver rnd (Suc 0) [(0, Suc 0)] (Suc k) 3 \<lparr>rank = [Suc 0, 0, 0, 0], parent = [0, 0, 2, 3]\<rparr> = None"
    using contract_ver_stuck [of rnd "Suc 0" "[(0, Suc 0)]" "Suc k" 3 "\<lparr>rank = [Suc 0, 0, 0, 0], parent = [0, 0, 2, 3]\<rparr>"]
    by (cases "contract_ver rnd (Suc 0) [(0, Suc 0)] (Suc k) 3 \<lparr>rank = [Suc 0, 0, 0, 0], parent = [0, 0, 2, 3]\<rparr>") auto
  ultimately show ?thesis
    by (simp add: karger_min_cut_trial_ver_def)
qed

text \<open>
  Claim C2, at an input where the code does not do what the claim says. Four vertices
  and the single edge \<open>(0, 1)\<close>: three components. After the first contraction three
  sets remain, every later draw picks the only edge, whose ends are in one set, and the
  loop of kargercppver.cpp never ends, whatever the random draws are.
\<close>

theorem trial_ver_never_returns:
  "karger_min_cut_trial_ver rnd k 4 1 [(0, 1)] = None"
  by (simp add: trial_ver_stuck)

section \<open>The caller's matrix\<close>

lemma stoer_wagner_pq_frame: "snd (stoer_wagner_pq G) = G"
  by (simp add: stoer_wagner_pq_def)

text \<open>
  Claim C8, at an input where the code does not do what the claim says. The linear-scan
  engine works on the caller's matrix itself: called on the graph of one edge of weight
  1 it returns 1 and leaves the caller a \<open>1 \<times> 1\<close> matrix. The priority-queue engine, on
  the same input, leaves the caller's matrix as it was.
\<close>

theorem stoer_wagner_overwrites_argument:
  "stoer_wagner [[0, 1], [1, 0]] = Inr (1, [[1]]) \<and>
   snd (stoer_wagner_pq [[0, 1], [1, 0]]) = [[0, 1], [1, 0]]"
  by code_simp

section \<open>Arithmetic in range, and the loops over the vertices\<close>

lemma wrap32_id: "- 2147483648 \<le> x \<Longrightarrow> x \<le> 2147483647 \<Longrightarrow> wrap32 x = x"
  by (simp add: wrap32_def)

lemma add32_id: "0 \<le> a \<Longrightarrow> 0 \<le> b \<Longrightarrow> a + b \<le> INT_MAX \<Longrightarrow> add32 a b = a + b"
  by (simp add: add32_def wrap32_id INT_MAX_def)

lemma length_fold_upt_update [simp]:
  "length (fold (\<lambda>i w. w[i := f i (w ! i)]) [0..<k] w) = length w"
  by (induction k) simp_all

lemma fold_upt_update_nth:
  "k \<le> length w \<Longrightarrow> j < length w \<Longrightarrow>
   fold (\<lambda>i w. w[i := f i (w ! i)]) [0..<k] w ! j = (if j < k then f j (w ! j) else w ! j)"
proof (induction k arbitrary: j)
  case 0
  then show ?case by simp
next
  case (Suc k)
  then have ih: "\<And>j. j < length w \<Longrightarrow>
      fold (\<lambda>i w. w[i := f i (w ! i)]) [0..<k] w ! j = (if j < k then f j (w ! j) else w ! j)"
    by simp
  from Suc.prems have "k < length w" by simp
  then show ?case
    using Suc.prems(2) ih [of j] ih [of k]
    by (cases "j = k") (simp_all add: nth_list_update)
qed

lemma fold_upt_update:
  "fold (\<lambda>i w. w[i := f i (w ! i)]) [0..<length w] w = map (\<lambda>i. f i (w ! i)) [0..<length w]"
  by (rule nth_equalityI) (simp_all add: fold_upt_update_nth)

lemma update_weights_conv:
  "length wt = V \<Longrightarrow>
   update_weights V G m ad wt =
     map (\<lambda>i. if ad ! i = 0 then add32 (wt ! i) (G ! m ! i) else wt ! i) [0..<V]"
proof -
  assume l: "length wt = V"
  have "(\<lambda>i w. if ad ! i = 0 then w[i := add32 (w ! i) (G ! m ! i)] else w)
      = (\<lambda>i w. w[i := (\<lambda>i x. if ad ! i = 0 then add32 x (G ! m ! i) else x) i (w ! i)])"
    by (intro ext) simp
  then show ?thesis
    unfolding update_weights_def
    using fold_upt_update [of "\<lambda>i x. if ad ! i = 0 then add32 x (G ! m ! i) else x" wt] l by simp
qed

lemma phase_init_weight:
  "weight (phase_init V G) = map (\<lambda>i. add32 0 (G ! i ! 0)) [0..<V]"
  unfolding phase_init_def using fold_upt_update [of "\<lambda>i x. add32 x (G ! i ! 0)" "replicate V 0"]
  by simp

lemma tightest_fold:
  "fold (tightest_step wt ad) [0..<k] (None, -1) = (mo, mx) \<Longrightarrow>
   (case mo of
      None \<Rightarrow> mx = -1 \<and> (\<forall>i<k. ad ! i = 0 \<longrightarrow> wt ! i \<le> -1)
    | Some m \<Rightarrow> m < k \<and> ad ! m = 0 \<and> wt ! m = mx \<and> -1 < mx \<and> (\<forall>i<k. ad ! i = 0 \<longrightarrow> wt ! i \<le> mx))"
proof (induction k arbitrary: mo mx)
  case 0
  then show ?case by simp
next
  case (Suc k)
  obtain mo' mx' where f: "fold (tightest_step wt ad) [0..<k] (None, -1) = (mo', mx')"
    by (cases "fold (tightest_step wt ad) [0..<k] (None, -1)") auto
  note ih = Suc.IH [OF f]
  from Suc.prems f have st: "tightest_step wt ad k (mo', mx') = (mo, mx)" by simp
  show ?case
  proof (cases "wt ! k > mx' \<and> ad ! k = 0")
    case True
    with st have "mo = Some k" "mx = wt ! k" by (simp_all add: tightest_step_def)
    with True ih show ?thesis
      by (cases mo') (auto simp: less_Suc_eq)
  next
    case False
    with st have "mo = mo'" "mx = mx'" by (auto simp: tightest_step_def)
    with False ih show ?thesis
      by (cases mo') (auto simp: less_Suc_eq)
  qed
qed

lemma find_tightest_Some:
  assumes "i < V" "ad ! i = 0" "-1 < wt ! i"
  shows "\<exists>m<V. find_tightest V wt ad = Some m \<and> ad ! m = 0 \<and>
           (\<forall>j<V. ad ! j = 0 \<longrightarrow> wt ! j \<le> wt ! m)"
proof -
  obtain mo mx where f: "fold (tightest_step wt ad) [0..<V] (None, -1) = (mo, mx)"
    by (cases "fold (tightest_step wt ad) [0..<V] (None, -1)") auto
  from tightest_fold [OF f] assms show ?thesis
    by (cases mo) (auto simp: find_tightest_def f)
qed

section \<open>The invariant of a phase\<close>

lemma conn_nonneg: "nonneg G \<Longrightarrow> v < length G \<Longrightarrow> A \<subseteq> {..<length G} \<Longrightarrow> 0 \<le> conn G A v"
  unfolding conn_def nonneg_def by (intro sum_nonneg) auto

lemma conn_mono:
  "nonneg G \<Longrightarrow> v < length G \<Longrightarrow> A \<subseteq> B \<Longrightarrow> B \<subseteq> {..<length G} \<Longrightarrow> conn G A v \<le> conn G B v"
  unfolding conn_def nonneg_def
  by (intro sum_mono2) (auto intro: finite_subset [of _ "{..<length G}"])

lemma conn_insert:
  "finite A \<Longrightarrow> m \<notin> A \<Longrightarrow> conn G (insert m A) v = conn G A v + G ! v ! m"
  by (simp add: conn_def)

lemma row_part_nonneg:
  "nonneg G \<Longrightarrow> a < length G \<Longrightarrow> 0 \<le> (\<Sum>j \<in> {a..<length G}. G ! a ! j)"
  unfolding nonneg_def by (intro sum_nonneg) auto

lemma conn_row_le_total:
  assumes "symmetric G" "nonneg G" "v < length G"
  shows "conn G ({..<length G} - {v}) v \<le> total_weight G"
proof -
  let ?V = "length G"
  let ?r = "\<lambda>a. \<Sum>j \<in> {a..<?V}. G ! a ! j"
  have split: "{..<?V} - {v} = {..<v} \<union> {Suc v..<?V}" using assms(3) by auto
  have c: "conn G ({..<?V} - {v}) v = (\<Sum>a \<in> {..<v}. G ! v ! a) + (\<Sum>a \<in> {Suc v..<?V}. G ! v ! a)"
    unfolding conn_def split by (rule sum.union_disjoint) auto
  have "(\<Sum>a \<in> {..<v}. G ! v ! a) = (\<Sum>a \<in> {..<v}. G ! a ! v)"
    using assms(1,3) by (intro sum.cong) (auto simp: symmetric_def)
  also have "\<dots> \<le> (\<Sum>a \<in> {..<v}. ?r a)"
  proof (rule sum_mono)
    fix a assume "a \<in> {..<v}"
    then have "v \<in> {a..<?V}" using assms(3) by auto
    moreover have "\<forall>j \<in> {a..<?V}. 0 \<le> G ! a ! j"
      using assms(2,3) \<open>a \<in> {..<v}\<close> by (auto simp: nonneg_def)
    ultimately show "G ! a ! v \<le> ?r a"
      by (intro member_le_sum) auto
  qed
  finally have p1: "(\<Sum>a \<in> {..<v}. G ! v ! a) \<le> (\<Sum>a \<in> {..<v}. ?r a)" .
  have p2: "(\<Sum>a \<in> {Suc v..<?V}. G ! v ! a) \<le> ?r v"
    using assms(2,3) by (intro sum_mono2) (auto simp: nonneg_def)
  have tsplit: "{..<?V} = {..<v} \<union> ({v} \<union> {Suc v..<?V})" using assms(3) by auto
  have "total_weight G = (\<Sum>a \<in> {..<v}. ?r a) + (?r v + (\<Sum>a \<in> {Suc v..<?V}. ?r a))"
    unfolding total_weight_def
    by (subst tsplit, subst sum.union_disjoint) (auto simp: sum.union_disjoint)
  moreover have "0 \<le> (\<Sum>a \<in> {Suc v..<?V}. ?r a)"
    using assms(2) by (intro sum_nonneg row_part_nonneg) auto
  ultimately show ?thesis using c p1 p2 by linarith
qed

lemma conn_le_total:
  assumes "symmetric G" "nonneg G" "v < length G" "A \<subseteq> {..<length G} - {v}"
  shows "conn G A v \<le> total_weight G"
  using conn_mono [OF assms(2,3,4)] conn_row_le_total [OF assms(1-3)] by auto

lemma distinct_ma_order: "ma_order G V ord \<Longrightarrow> distinct ord \<and> set ord \<subseteq> {..<V} \<and> ord \<noteq> []"
  by (induction G V ord rule: ma_order.induct) auto

lemma ma_order_Cons:
  "ma_order G V ord \<Longrightarrow>
   ma_order G V (v # ord) \<longleftrightarrow>
     (v < V \<and> v \<notin> set ord \<and> (\<forall>u \<in> {..<V} - set ord. conn G (set ord) u \<le> conn G (set ord) v))"
  by (cases ord) auto

lemma ma_order_outside:
  assumes "ma_order G V ord" "length ord < V"
  shows "\<exists>i<V. i \<notin> set ord"
proof (rule ccontr)
  assume "\<not> (\<exists>i<V. i \<notin> set ord)"
  then have "{..<V} \<subseteq> set ord" by auto
  then have "card {..<V} \<le> card (set ord)" by (intro card_mono) auto
  also have "\<dots> \<le> length ord" by (rule card_length)
  finally show False using assms(2) by simp
qed

lemma added_set_update:
  "m < V \<Longrightarrow> length ad = V \<Longrightarrow> added_set V (ad[m := 1]) = insert m (added_set V ad)"
  by (auto simp: added_set_def nth_list_update)

lemma phase_inv_init:
  assumes "length G = V" "symmetric G" "nonneg G" "fits G" "0 < V"
  shows "phase_inv G V [0] (phase_init V G)"
proof -
  have w: "weight (phase_init V G) ! i = conn G {0} i" if "i \<in> {..<V} - {0}" for i
  proof -
    from that have i: "i < V" "i \<noteq> 0" by auto
    have "conn G {0} i \<le> total_weight G"
      using assms i by (intro conn_le_total) auto
    then have "G ! i ! 0 \<le> INT_MAX" using assms(4) by (simp add: conn_def fits_def)
    moreover have "0 \<le> G ! i ! 0" using assms i by (auto simp: nonneg_def)
    ultimately have "add32 0 (G ! i ! 0) = G ! i ! 0" using add32_id [of 0 "G ! i ! 0"] by simp
    then show ?thesis using i by (simp add: phase_init_weight conn_def)
  qed
  have a: "added_set V (added (phase_init V G)) = {0}"
    using assms(5) by (auto simp: phase_init_def added_set_def nth_list_update)
  show ?thesis
    unfolding phase_inv_def using w a assms(5)
    by (simp add: phase_init_weight) (simp add: phase_init_def)
qed

lemma phase_inv_step:
  assumes g: "length G = V" "symmetric G" "nonneg G" "fits G"
    and inv: "phase_inv G V ord s" and lt: "length ord < V"
  shows "\<exists>m. find_tightest V (weight s) (added s) = Some m \<and>
           phase_inv G V (m # ord)
             \<lparr>added = (added s)[m := 1],
              weight = update_weights V G m ((added s)[m := 1]) (weight s),
              prev = Some (lastv s), lastv = m\<rparr>"
proof -
  from inv have la: "length (added s) = V" and lw: "length (weight s) = V"
    and mo: "ma_order G V ord" and as: "added_set V (added s) = set ord"
    and lv: "lastv s = hd ord"
    and wi: "\<forall>i \<in> {..<V} - set ord. weight s ! i = conn G (set ord) i"
    by (simp_all add: phase_inv_def)
  from distinct_ma_order [OF mo] have sub: "set ord \<subseteq> {..<V}" and ne: "ord \<noteq> []" by auto
  have un: "added s ! i = 0 \<longleftrightarrow> i \<notin> set ord" if "i < V" for i
    using as that by (auto simp: added_set_def)
  obtain i where i: "i < V" "i \<notin> set ord" using ma_order_outside [OF mo lt] by blast
  have "0 \<le> conn G (set ord) i" using g i sub by (intro conn_nonneg) auto
  then have "-1 < weight s ! i" using wi i by simp
  from find_tightest_Some [OF i(1) _ this] un [OF i(1)] i(2)
  obtain m where m: "m < V" "find_tightest V (weight s) (added s) = Some m" "added s ! m = 0"
    "\<forall>j<V. added s ! j = 0 \<longrightarrow> weight s ! j \<le> weight s ! m" by blast
  from m(1,3) un have mn: "m \<notin> set ord" by simp
  let ?s' = "\<lparr>added = (added s)[m := 1],
              weight = update_weights V G m ((added s)[m := 1]) (weight s),
              prev = Some (lastv s), lastv = m\<rparr>"
  have max: "\<forall>u \<in> {..<V} - set ord. conn G (set ord) u \<le> conn G (set ord) m"
  proof
    fix u assume u: "u \<in> {..<V} - set ord"
    then have "added s ! u = 0" using un by simp
    with m(4) u have "weight s ! u \<le> weight s ! m" by simp
    then show "conn G (set ord) u \<le> conn G (set ord) m" using wi u m(1) mn by simp
  qed
  have mo': "ma_order G V (m # ord)"
    using ma_order_Cons [OF mo] m(1) mn max by simp
  have as': "added_set V (added ?s') = set (m # ord)"
    using added_set_update [OF m(1) la] as by simp
  have w': "weight ?s' ! j = conn G (set (m # ord)) j" if "j \<in> {..<V} - set (m # ord)" for j
  proof -
    from that have j: "j < V" "j \<noteq> m" "j \<notin> set ord" by auto
    have c: "conn G (insert m (set ord)) j = conn G (set ord) j + G ! j ! m"
      using mn by (intro conn_insert) auto
    have "conn G (insert m (set ord)) j \<le> total_weight G"
      using g j sub m(1) by (intro conn_le_total) auto
    then have b: "conn G (set ord) j + G ! j ! m \<le> INT_MAX" using c g(4) by (simp add: fits_def)
    have s: "G ! m ! j = G ! j ! m" using g(1,2) j(1) m(1) by (auto simp: symmetric_def)
    have "0 \<le> conn G (set ord) j" using g j sub by (intro conn_nonneg) auto
    moreover have "0 \<le> G ! j ! m" using g j m(1) by (auto simp: nonneg_def)
    ultimately have "add32 (conn G (set ord) j) (G ! j ! m) = conn G (set ord) j + G ! j ! m"
      using b by (intro add32_id)
    moreover have "(added s)[m := 1] ! j = 0" using j un la by (simp add: nth_list_update)
    moreover have "weight s ! j = conn G (set ord) j" using wi j by simp
    ultimately show ?thesis
      using j(1) lw c s by (simp add: update_weights_conv)
  qed
  have wm: "weight ?s' ! m = conn G (set ord) m"
  proof -
    have "(added s)[m := 1] ! m \<noteq> 0" using m(1) la by simp
    then have "weight ?s' ! m = weight s ! m"
      using m(1) lw by (simp add: update_weights_conv)
    then show ?thesis using wi m(1) mn by simp
  qed
  have "phase_inv G V (m # ord) ?s'"
    unfolding phase_inv_def
    using la lw mo' as' w' wm lv ne by (simp add: update_weights_conv)
  with m(2) show ?thesis by blast
qed

lemma grow_inv:
  assumes g: "length G = V" "symmetric G" "nonneg G" "fits G"
  shows "phase_inv G V ord s \<Longrightarrow> length ord + n \<le> V \<Longrightarrow>
     \<exists>s' ord'. grow V G n s = Inr s' \<and> phase_inv G V ord' s' \<and> length ord' = length ord + n"
proof (induction n arbitrary: ord s)
  case 0
  then show ?case by auto
next
  case (Suc n)
  from Suc.prems have lt: "length ord < V" by simp
  from phase_inv_step [OF g Suc.prems(1) lt] obtain m where
    m: "find_tightest V (weight s) (added s) = Some m"
    "phase_inv G V (m # ord)
             \<lparr>added = (added s)[m := 1],
              weight = update_weights V G m ((added s)[m := 1]) (weight s),
              prev = Some (lastv s), lastv = m\<rparr>" by blast
  from Suc.IH [OF m(2)] Suc.prems(2) m(1) show ?case by auto
qed

section \<open>The cut of the phase\<close>

lemma cut_within_insert:
  assumes "symmetric G" "X \<subseteq> {..<length G}" "u < length G" "u \<notin> X"
  shows "cut_within G S (insert u X) = cut_within G S X + conn G {x \<in> X. (x \<in> S) \<noteq> (u \<in> S)} u"
proof -
  have fin: "finite X" using assms(2) by (rule finite_subset) simp
  show ?thesis
  proof (cases "u \<in> S")
    case True
    then have a: "insert u X \<inter> S = insert u (X \<inter> S)" "insert u X - S = X - S" by auto
    have b: "{x \<in> X. (x \<in> S) \<noteq> (u \<in> S)} = X - S" using True by auto
    show ?thesis
      unfolding cut_within_def a b conn_def using fin assms(4) by simp
  next
    case False
    then have a: "insert u X \<inter> S = X \<inter> S" "insert u X - S = insert u (X - S)" by auto
    have b: "{x \<in> X. (x \<in> S) \<noteq> (u \<in> S)} = X \<inter> S" using False by auto
    have "(\<Sum>x \<in> X \<inter> S. \<Sum>y \<in> insert u (X - S). G ! x ! y)
        = (\<Sum>x \<in> X \<inter> S. G ! x ! u + (\<Sum>y \<in> X - S. G ! x ! y))"
      using fin assms(4) by (intro sum.cong) auto
    also have "\<dots> = (\<Sum>x \<in> X \<inter> S. G ! x ! u) + cut_within G S X"
      by (simp add: sum.distrib cut_within_def)
    also have "(\<Sum>x \<in> X \<inter> S. G ! x ! u) = (\<Sum>x \<in> X \<inter> S. G ! u ! x)"
      using assms(1-3) by (intro sum.cong) (auto simp: symmetric_def)
    finally show ?thesis
      unfolding cut_within_def a b conn_def by simp
  qed
qed

lemma cut_within_grow:
  assumes "symmetric G" "nonneg G" "X \<subseteq> {..<length G}" "u < length G" "u \<notin> X"
    and "a \<in> X" "(a \<in> S) \<noteq> (u \<in> S)"
  shows "cut_within G S X + G ! u ! a \<le> cut_within G S (insert u X)"
proof -
  have "conn G {a} u \<le> conn G {x \<in> X. (x \<in> S) \<noteq> (u \<in> S)} u"
    using assms by (intro conn_mono) auto
  then show ?thesis
    using cut_within_insert [OF assms(1,3,4,5), of S] by (simp add: conn_def)
qed

lemma cut_within_single: "cut_within G S {a} = 0"
  by (cases "a \<in> S") (simp_all add: cut_within_def)

lemma ma_order_key:
  assumes g: "length G = V" "symmetric G" "nonneg G"
  shows "ma_order G V (a # A) \<Longrightarrow> u \<in> {..<V} - set (a # A) \<Longrightarrow> (u \<in> S) \<noteq> (a \<in> S) \<Longrightarrow>
     conn G (set (a # A)) u \<le> cut_within G S (insert u (set (a # A)))"
proof (induction A arbitrary: a u)
  case Nil
  then have u: "u < V" "u \<noteq> a" and a: "a < V" by auto
  have "cut_within G S (insert u {a}) = cut_within G S {a} + conn G {x \<in> {a}. (x \<in> S) \<noteq> (u \<in> S)} u"
    using g u a by (intro cut_within_insert) auto
  moreover have "{x \<in> {a}. (x \<in> S) \<noteq> (u \<in> S)} = {a}" using Nil.prems(3) by auto
  ultimately show ?case by (simp add: cut_within_single)
next
  case (Cons b B)
  let ?X = "set (b # B)"
  from Cons.prems(1) have mo: "ma_order G V (b # B)" and a: "a < V" "a \<notin> ?X"
    and mx: "\<forall>w \<in> {..<V} - ?X. conn G ?X w \<le> conn G ?X a" by auto
  from distinct_ma_order [OF mo] have sub: "?X \<subseteq> {..<V}" by simp
  from Cons.prems(2) have u: "u < V" "u \<noteq> a" "u \<notin> ?X" by auto
  have sub': "insert a ?X \<subseteq> {..<length G}" using sub a g(1) by auto
  have c: "conn G (insert a ?X) u = conn G ?X u + G ! u ! a"
    using a by (intro conn_insert) auto
  have step: "cut_within G S (insert a ?X) + G ! u ! a \<le> cut_within G S (insert u (insert a ?X))"
    using g u a sub' Cons.prems(3) by (intro cut_within_grow) auto
  show ?case
  proof (cases "(a \<in> S) = (b \<in> S)")
    case True
    with Cons.prems(3) have "(u \<in> S) \<noteq> (b \<in> S)" by simp
    from Cons.IH [OF mo _ this] u have ih: "conn G ?X u \<le> cut_within G S (insert u ?X)" by simp
    have "cut_within G S (insert u ?X) + G ! a ! u \<le> cut_within G S (insert a (insert u ?X))"
      using g u a sub Cons.prems(3) by (intro cut_within_grow) auto
    moreover have "G ! a ! u = G ! u ! a" using g a u by (auto simp: symmetric_def)
    moreover have "insert a (insert u ?X) = insert u (insert a ?X)" by auto
    ultimately show ?thesis using ih c by simp
  next
    case False
    from Cons.IH [OF mo _ False] a have ih: "conn G ?X a \<le> cut_within G S (insert a ?X)" by simp
    have "conn G ?X u \<le> conn G ?X a" using mx u by simp
    with ih step c show ?thesis by simp
  qed
qed

lemma cut_within_all: "S \<subseteq> {..<length G} \<Longrightarrow> cut_within G S {..<length G} = cut_weight G S"
  by (simp add: cut_within_def cut_weight_def Int_absorb1)

lemma cut_weight_single: "l < length G \<Longrightarrow> cut_weight G {l} = conn G ({..<length G} - {l}) l"
  by (simp add: cut_weight_def conn_def)

lemma cut_weight_compl:
  assumes "symmetric G" "S \<subseteq> {..<length G}"
  shows "cut_weight G ({..<length G} - S) = cut_weight G S"
proof -
  have "{..<length G} - ({..<length G} - S) = S" using assms(2) by auto
  then have "cut_weight G ({..<length G} - S) = (\<Sum>i \<in> {..<length G} - S. \<Sum>j \<in> S. G ! i ! j)"
    by (simp add: cut_weight_def)
  also have "\<dots> = (\<Sum>j \<in> S. \<Sum>i \<in> {..<length G} - S. G ! i ! j)"
    by (rule sum.swap)
  also have "\<dots> = cut_weight G S"
    unfolding cut_weight_def using assms by (intro sum.cong) (auto simp: symmetric_def)
  finally show ?thesis .
qed

text \<open>The cut of the phase is a minimum cut between the two latest vertices.\<close>

lemma cut_of_the_phase:
  assumes g: "length G = V" "symmetric G" "nonneg G"
    and mo: "ma_order G V (l # p # A)" and all: "set (l # p # A) = {..<V}"
    and S: "S \<subseteq> {..<V}" "(l \<in> S) \<noteq> (p \<in> S)"
  shows "cut_weight G {l} \<le> cut_weight G S"
proof -
  from mo have mo': "ma_order G V (p # A)" and l: "l < V" "l \<notin> set (p # A)" by auto
  have k: "conn G (set (p # A)) l \<le> cut_within G S (insert l (set (p # A)))"
    using l S(2) by (intro ma_order_key [OF g mo']) auto
  have e1: "insert l (set (p # A)) = {..<length G}" using all g(1) by auto
  have e2: "set (p # A) = {..<length G} - {l}" using all l g(1) by auto
  have "cut_within G S {..<length G} = cut_weight G S"
    using S(1) g(1) by (intro cut_within_all) simp
  moreover have "cut_weight G {l} = conn G ({..<length G} - {l}) l"
    using l(1) g(1) by (intro cut_weight_single) simp
  moreover have "conn G ({..<length G} - {l}) l \<le> cut_within G S {..<length G}"
    using k e1 e2 by metis
  ultimately show ?thesis by simp
qed

section \<open>Merging and erasing\<close>

lemma square_nth: "square G \<Longrightarrow> a < length G \<Longrightarrow> length (G ! a) = length G"
  by (simp add: square_def)

lemma squareI: "(\<And>a. a < length G \<Longrightarrow> length (G ! a) = length G) \<Longrightarrow> square G"
  by (auto simp: square_def in_set_conv_nth)

lemma merge_step_length [simp]: "length (merge_step p l i G) = length G"
  by (simp add: merge_step_def Let_def)

lemma merge_step_square:
  "square G \<Longrightarrow> p < length G \<Longrightarrow> i < length G \<Longrightarrow> square (merge_step p l i G)"
  by (rule squareI) (auto simp: merge_step_def Let_def nth_list_update square_nth)

lemma merge_step_nth:
  assumes "square G" "p < length G" "i < length G" "a < length G" "b < length G"
  shows "merge_step p l i G ! a ! b =
     (if (a = p \<and> b = i) \<or> (a = i \<and> b = p) then add32 (G ! p ! i) (G ! l ! i) else G ! a ! b)"
  using assms by (auto simp: merge_step_def Let_def nth_list_update square_nth)

lemma merge_fold:
  assumes sq: "square G" and p: "p < length G" and l: "l < length G" and pl: "p \<noteq> l"
  shows "k \<le> length G \<Longrightarrow>
     square (fold (merge_step p l) [0..<k] G) \<and>
     length (fold (merge_step p l) [0..<k] G) = length G \<and>
     (\<forall>a<length G. \<forall>b<length G.
        fold (merge_step p l) [0..<k] G ! a ! b =
          (if a = p \<and> b < k then merged_entry G p l b
           else if b = p \<and> a < k then merged_entry G p l a
           else G ! a ! b))"
proof (induction k)
  case 0
  then show ?case using sq by simp
next
  case (Suc k)
  let ?M = "fold (merge_step p l) [0..<k] G"
  from Suc have sqM: "square ?M" and lM: "length ?M = length G"
    and nM: "\<And>a b. a < length G \<Longrightarrow> b < length G \<Longrightarrow> ?M ! a ! b =
          (if a = p \<and> b < k then merged_entry G p l b
           else if b = p \<and> a < k then merged_entry G p l a
           else G ! a ! b)"
    by auto
  from Suc.prems have k: "k < length G" by simp
  have pk: "?M ! p ! k = G ! p ! k" using nM [OF p k] by auto
  have lk: "?M ! l ! k = (if k = p \<and> l < p then add32 (G ! p ! l) (G ! l ! l) else G ! l ! k)"
    using nM [OF l k] pl by (auto simp: merged_entry_def)
  have new: "add32 (?M ! p ! k) (?M ! l ! k) = merged_entry G p l k"
    unfolding pk lk by (simp add: merged_entry_def)
  have "fold (merge_step p l) [0..<Suc k] G ! a ! b =
          (if a = p \<and> b < Suc k then merged_entry G p l b
           else if b = p \<and> a < Suc k then merged_entry G p l a
           else G ! a ! b)" if "a < length G" "b < length G" for a b
  proof -
    have "fold (merge_step p l) [0..<Suc k] G ! a ! b = merge_step p l k ?M ! a ! b" by simp
    also have "\<dots> = (if (a = p \<and> b = k) \<or> (a = k \<and> b = p) then merged_entry G p l k else ?M ! a ! b)"
      using merge_step_nth [OF sqM, of p k a b l] p k that lM new by simp
    finally show ?thesis using nM [OF that] by (auto simp: less_Suc_eq)
  qed
  then show ?case using sqM lM p k by (simp add: merge_step_square)
qed

lemma merge_vertices_nth:
  assumes "square G" "p < length G" "l < length G" "p \<noteq> l" "a < length G" "b < length G"
  shows "merge_vertices (length G) p l G ! a ! b =
          (if a = p then merged_entry G p l b
           else if b = p then merged_entry G p l a
           else G ! a ! b)"
  using merge_fold [OF assms(1-4), of "length G"] assms(5,6) by (simp add: merge_vertices_def)

lemma merge_vertices_square:
  assumes "square G" "p < length G" "l < length G" "p \<noteq> l"
  shows "square (merge_vertices (length G) p l G)" "length (merge_vertices (length G) p l G) = length G"
  using merge_fold [OF assms(1-4), of "length G"] by (simp_all add: merge_vertices_def)

lemma length_erase_at: "l < length xs \<Longrightarrow> length (erase_at l xs) = length xs - 1"
  by (simp add: erase_at_def)

lemma erase_at_nth: "l < length xs \<Longrightarrow> a < length xs - 1 \<Longrightarrow> erase_at l xs ! a = xs ! skip l a"
  by (auto simp: erase_at_def skip_def nth_append min_def)

lemma erase_at_map: "erase_at l (map f xs) = map f (erase_at l xs)"
  by (simp add: erase_at_def take_map drop_map)

lemma map_upt_nth: "map (\<lambda>i. f (xs ! i)) [0..<length xs] = map f xs"
  by (rule nth_equalityI) simp_all

lemma remove_vertex_conv: "length M = V \<Longrightarrow> remove_vertex V l M = erase_at l (map (erase_at l) M)"
  unfolding remove_vertex_def using fold_upt_update [of "\<lambda>i. erase_at l" M]
  by (auto simp: map_upt_nth)

lemma remove_vertex_pq_conv: "remove_vertex_pq l M = erase_at l (map (erase_at l) M)"
  unfolding remove_vertex_pq_def Let_def
  using fold_upt_update [of "\<lambda>i. erase_at l" "erase_at l M"]
  by (simp add: map_upt_nth erase_at_map)

lemma erased_matrix:
  assumes "square M" "l < length M"
  shows "length (erase_at l (map (erase_at l) M)) = length M - 1"
    and "square (erase_at l (map (erase_at l) M))"
    and "a < length M - 1 \<Longrightarrow> b < length M - 1 \<Longrightarrow>
           erase_at l (map (erase_at l) M) ! a ! b = M ! skip l a ! skip l b"
proof -
  show len: "length (erase_at l (map (erase_at l) M)) = length M - 1"
    using assms(2) by (simp add: length_erase_at)
  have sk: "skip l a < length M" if "a < length M - 1" for a
    using that by (auto simp: skip_def)
  have row: "erase_at l (map (erase_at l) M) ! a = erase_at l (M ! skip l a)" if "a < length M - 1" for a
    using that assms(2) sk [OF that] by (simp add: erase_at_nth)
  show "square (erase_at l (map (erase_at l) M))"
    by (rule squareI) (use assms sk in \<open>simp add: len row length_erase_at square_nth\<close>)
  show "erase_at l (map (erase_at l) M) ! a ! b = M ! skip l a ! skip l b"
    if "a < length M - 1" "b < length M - 1"
    using that assms sk [OF that(1)] by (simp add: row erase_at_nth square_nth)
qed

section \<open>Sums over the matrix\<close>

lemma triangle_sum:
  fixes f :: "nat \<Rightarrow> nat \<Rightarrow> int"
  shows "(\<forall>i<n. \<forall>j<n. f i j = f j i) \<Longrightarrow>
     2 * (\<Sum>i \<in> {..<n}. \<Sum>j \<in> {i..<n}. f i j) = (\<Sum>i \<in> {..<n}. \<Sum>j \<in> {..<n}. f i j) + (\<Sum>i \<in> {..<n}. f i i)"
proof (induction n)
  case 0
  then show ?case by simp
next
  case (Suc n)
  then have ih: "2 * (\<Sum>i \<in> {..<n}. \<Sum>j \<in> {i..<n}. f i j)
      = (\<Sum>i \<in> {..<n}. \<Sum>j \<in> {..<n}. f i j) + (\<Sum>i \<in> {..<n}. f i i)" by simp
  have sy: "(\<Sum>j \<in> {..<n}. f n j) = (\<Sum>i \<in> {..<n}. f i n)"
    using Suc.prems by (intro sum.cong) auto
  have u: "(\<Sum>i \<in> {..<n}. \<Sum>j \<in> {i..<Suc n}. f i j)
      = (\<Sum>i \<in> {..<n}. \<Sum>j \<in> {i..<n}. f i j) + (\<Sum>i \<in> {..<n}. f i n)"
  proof -
    have "(\<Sum>j \<in> {i..<Suc n}. f i j) = (\<Sum>j \<in> {i..<n}. f i j) + f i n" if "i \<in> {..<n}" for i
      using that by (simp add: sum.atLeastLessThan_Suc)
    then show ?thesis by (simp add: sum.distrib)
  qed
  have "(\<Sum>i \<in> {..<Suc n}. \<Sum>j \<in> {i..<Suc n}. f i j)
      = (\<Sum>i \<in> {..<n}. \<Sum>j \<in> {i..<n}. f i j) + (\<Sum>i \<in> {..<n}. f i n) + f n n"
    using u by simp
  moreover have "(\<Sum>i \<in> {..<Suc n}. \<Sum>j \<in> {..<Suc n}. f i j)
      = (\<Sum>i \<in> {..<n}. \<Sum>j \<in> {..<n}. f i j) + (\<Sum>i \<in> {..<n}. f i n) + (\<Sum>j \<in> {..<n}. f n j) + f n n"
    by (simp add: sum.distrib)
  ultimately show ?case using ih sy by simp
qed

lemma total_weight_full_diag:
  "symmetric G \<Longrightarrow> 2 * total_weight G = full_sum G + diag_sum G"
  unfolding total_weight_def full_sum_def diag_sum_def
  by (rule triangle_sum) (auto simp: symmetric_def)

lemma sum_remove_index:
  fixes f :: "nat \<Rightarrow> int"
  shows "l < V \<Longrightarrow> (\<Sum>i \<in> {..<V}. f i) = f l + (\<Sum>i \<in> {..<V} - {l}. f i)"
  by (simp add: sum.remove)

lemma full_sum_split:
  assumes "l < length G"
  shows "full_sum G = G ! l ! l + (\<Sum>j \<in> {..<length G} - {l}. G ! l ! j)
           + (\<Sum>i \<in> {..<length G} - {l}. G ! i ! l)
           + (\<Sum>i \<in> {..<length G} - {l}. \<Sum>j \<in> {..<length G} - {l}. G ! i ! j)"
proof -
  let ?I = "{..<length G} - {l}"
  have "full_sum G = (\<Sum>j \<in> {..<length G}. G ! l ! j) + (\<Sum>i \<in> ?I. \<Sum>j \<in> {..<length G}. G ! i ! j)"
    unfolding full_sum_def using assms by (rule sum_remove_index)
  also have "(\<Sum>j \<in> {..<length G}. G ! l ! j) = G ! l ! l + (\<Sum>j \<in> ?I. G ! l ! j)"
    using assms by (rule sum_remove_index)
  also have "(\<Sum>i \<in> ?I. \<Sum>j \<in> {..<length G}. G ! i ! j)
       = (\<Sum>i \<in> ?I. G ! i ! l + (\<Sum>j \<in> ?I. G ! i ! j))"
    using assms by (intro sum.cong refl sum_remove_index)
  finally show ?thesis by (simp add: sum.distrib)
qed

lemma skip_bij: "l < V \<Longrightarrow> bij_betw (skip l) {..<V - 1} ({..<V} - {l})"
proof (rule bij_betwI')
  fix x y assume "x \<in> {..<V - 1}" "y \<in> {..<V - 1}"
  then show "(skip l x = skip l y) = (x = y)" by (auto simp: skip_def)
next
  fix x assume "x \<in> {..<V - 1}"
  then show "skip l x \<in> {..<V} - {l}" by (auto simp: skip_def)
next
  fix y assume l: "l < V" and y: "y \<in> {..<V} - {l}"
  show "\<exists>x \<in> {..<V - 1}. y = skip l x"
  proof (cases "y < l")
    case True
    then show ?thesis using y l by (intro bexI [of _ y]) (auto simp: skip_def)
  next
    case False
    then show ?thesis using y l by (intro bexI [of _ "y - 1"]) (auto simp: skip_def)
  qed
qed

lemma sum_skip:
  fixes f :: "nat \<Rightarrow> int"
  shows "l < V \<Longrightarrow> (\<Sum>a \<in> {..<V - 1}. f (skip l a)) = (\<Sum>i \<in> {..<V} - {l}. f i)"
  using sum.reindex_bij_betw [OF skip_bij, of l V f] by simp

section \<open>The contracted matrix\<close>

lemma entry_nonneg: "nonneg G \<Longrightarrow> i < length G \<Longrightarrow> j < length G \<Longrightarrow> 0 \<le> G ! i ! j"
  by (simp add: nonneg_def)

lemma entry_sym: "symmetric G \<Longrightarrow> i < length G \<Longrightarrow> j < length G \<Longrightarrow> G ! i ! j = G ! j ! i"
  by (simp add: symmetric_def)

lemma pair_le_total:
  assumes "symmetric G" "nonneg G" "i < length G" "p < length G" "l < length G" "i \<noteq> p" "i \<noteq> l" "p \<noteq> l"
  shows "G ! p ! i + G ! l ! i \<le> total_weight G"
proof -
  have "conn G {p, l} i \<le> total_weight G"
    using assms by (intro conn_le_total) auto
  moreover have "conn G {p, l} i = G ! i ! p + G ! i ! l" using assms(8) by (simp add: conn_def)
  ultimately show ?thesis using entry_sym [OF assms(1,3,4)] entry_sym [OF assms(1,3,5)] by simp
qed

lemma row_part_ge:
  assumes "nonneg G" "a < length G" "B \<subseteq> {a..<length G}"
  shows "(\<Sum>j \<in> B. G ! a ! j) \<le> (\<Sum>j \<in> {a..<length G}. G ! a ! j)"
  using assms by (intro sum_mono2) (auto simp: nonneg_def)

lemma two_rows_le_total:
  assumes "nonneg G" "a < length G" "b < length G" "a \<noteq> b"
  shows "(\<Sum>j \<in> {a..<length G}. G ! a ! j) + (\<Sum>j \<in> {b..<length G}. G ! b ! j) \<le> total_weight G"
proof -
  have "(\<Sum>i \<in> {a, b}. \<Sum>j \<in> {i..<length G}. G ! i ! j) \<le> total_weight G"
    unfolding total_weight_def using assms
    by (intro sum_mono2) (auto intro!: row_part_nonneg)
  then show ?thesis using assms(4) by simp
qed

lemma loops_le_total:
  assumes "symmetric G" "nonneg G" "p < length G" "l < length G" "p \<noteq> l"
  shows "G ! p ! p + G ! p ! l + G ! l ! l \<le> total_weight G"
proof (cases "p < l")
  case True
  have "(\<Sum>j \<in> {p, l}. G ! p ! j) \<le> (\<Sum>j \<in> {p..<length G}. G ! p ! j)"
    using assms True by (intro row_part_ge) auto
  moreover have "(\<Sum>j \<in> {l}. G ! l ! j) \<le> (\<Sum>j \<in> {l..<length G}. G ! l ! j)"
    using assms by (intro row_part_ge) auto
  ultimately show ?thesis
    using two_rows_le_total [OF assms(2,3,4,5)] assms(5) by simp
next
  case False
  then have lp: "l < p" using assms(5) by simp
  have "(\<Sum>j \<in> {l, p}. G ! l ! j) \<le> (\<Sum>j \<in> {l..<length G}. G ! l ! j)"
    using assms lp by (intro row_part_ge) auto
  moreover have "(\<Sum>j \<in> {p}. G ! p ! j) \<le> (\<Sum>j \<in> {p..<length G}. G ! p ! j)"
    using assms by (intro row_part_ge) auto
  ultimately show ?thesis
    using two_rows_le_total [OF assms(2,3,4,5)] assms(5) entry_sym [OF assms(1,3,4)] by simp
qed

lemma merged_entry_sum:
  assumes "symmetric G" "nonneg G" "fits G" "p < length G" "l < length G" "p \<noteq> l"
    and "i < length G" "i \<noteq> l"
  shows "merged_entry G p l i = contracted G p l p i"
proof (cases "i = p")
  case True
  have n: "0 \<le> G ! p ! p" "0 \<le> G ! p ! l" "0 \<le> G ! l ! l" "0 \<le> G ! l ! p"
    using assms by (simp_all add: entry_nonneg)
  have b: "G ! p ! p + G ! p ! l + G ! l ! l \<le> INT_MAX"
    using loops_le_total [OF assms(1,2,4,5,6)] assms(3) by (simp add: fits_def)
  have s: "G ! l ! p = G ! p ! l" using assms by (simp add: entry_sym)
  show ?thesis
  proof (cases "l < p")
    case lp: True
    have "add32 (G ! p ! l) (G ! l ! l) = G ! p ! l + G ! l ! l"
      using n b by (intro add32_id) auto
    moreover have "add32 (G ! p ! p) (G ! p ! l + G ! l ! l) = G ! p ! p + (G ! p ! l + G ! l ! l)"
      using n b by (intro add32_id) auto
    ultimately show ?thesis using True lp by (simp add: merged_entry_def contracted_def)
  next
    case nlp: False
    have "add32 (G ! p ! p) (G ! l ! p) = G ! p ! p + G ! l ! p"
      using n b s by (intro add32_id) auto
    then show ?thesis using True nlp s by (simp add: merged_entry_def contracted_def)
  qed
next
  case False
  have "G ! p ! i + G ! l ! i \<le> INT_MAX"
    using pair_le_total [OF assms(1,2,7,4,5) False assms(8,6)] assms(3) by (simp add: fits_def)
  then have "add32 (G ! p ! i) (G ! l ! i) = G ! p ! i + G ! l ! i"
    using assms by (intro add32_id) (simp_all add: entry_nonneg)
  then show ?thesis using False by (simp add: merged_entry_def contracted_def)
qed

lemma contracted_sym:
  assumes "symmetric G" "p < length G" "l < length G" "i < length G" "j < length G"
  shows "contracted G p l i j = contracted G p l j i"
  using entry_sym [OF assms(1,4,5)] entry_sym [OF assms(1,4,2)] entry_sym [OF assms(1,4,3)]
    entry_sym [OF assms(1,5,2)] entry_sym [OF assms(1,5,3)]
  by (auto simp: contracted_def)

lemma contracted_nonneg:
  assumes "nonneg G" "p < length G" "l < length G" "i < length G" "j < length G"
  shows "0 \<le> contracted G p l i j"
  using assms by (auto simp: contracted_def intro!: add_nonneg_nonneg entry_nonneg)

lemma skip_less: "l < V \<Longrightarrow> a < V - 1 \<Longrightarrow> skip l a < V \<and> skip l a \<noteq> l"
  by (auto simp: skip_def)

lemma contract_entries:
  assumes "square G" "symmetric G" "nonneg G" "fits G" "p < length G" "l < length G" "p \<noteq> l"
  defines "G' \<equiv> erase_at l (map (erase_at l) (merge_vertices (length G) p l G))"
  shows "length G' = length G - 1" and "square G'"
    and "\<And>a b. a < length G - 1 \<Longrightarrow> b < length G - 1 \<Longrightarrow>
           G' ! a ! b = contracted G p l (skip l a) (skip l b)"
proof -
  let ?M = "merge_vertices (length G) p l G"
  have sqM: "square ?M" and lM: "length ?M = length G"
    using merge_vertices_square [OF assms(1,5,6,7)] by simp_all
  show "length G' = length G - 1" "square G'"
    unfolding G'_def using erased_matrix(1,2) [OF sqM, of l] assms(6) lM by simp_all
  fix a b assume ab: "a < length G - 1" "b < length G - 1"
  let ?i = "skip l a" and ?j = "skip l b"
  from skip_less [OF assms(6)] ab have i: "?i < length G" "?i \<noteq> l" and j: "?j < length G" "?j \<noteq> l"
    by simp_all
  have "G' ! a ! b = ?M ! ?i ! ?j"
    unfolding G'_def using erased_matrix(3) [OF sqM, of l a b] assms(6) lM ab by simp
  also have "\<dots> = (if ?i = p then merged_entry G p l ?j
           else if ?j = p then merged_entry G p l ?i
           else G ! ?i ! ?j)"
    using merge_vertices_nth [OF assms(1,5,6,7) i(1) j(1)] .
  also have "\<dots> = contracted G p l ?i ?j"
    using merged_entry_sum [OF assms(2,3,4,5,6,7) i] merged_entry_sum [OF assms(2,3,4,5,6,7) j]
      contracted_sym [OF assms(2,5,6) i(1) assms(5)]
    by (auto simp: contracted_def)
  finally show "G' ! a ! b = contracted G p l ?i ?j" .
qed

section \<open>Contraction keeps the matrix valid\<close>

lemma sum_if_row:
  fixes f :: "nat \<Rightarrow> int"
  assumes "finite I" "p \<in> I"
  shows "(\<Sum>i \<in> I. \<Sum>j \<in> I. if i = p then f j else 0) = (\<Sum>j \<in> I. f j)"
proof -
  have "(\<Sum>i \<in> I. \<Sum>j \<in> I. if i = p then f j else 0) = (\<Sum>i \<in> I. if i = p then (\<Sum>j \<in> I. f j) else 0)"
    by (intro sum.cong) auto
  then show ?thesis using assms by (simp add: sum.delta)
qed

lemma sum_if_col:
  fixes g :: "nat \<Rightarrow> int"
  assumes "finite I" "p \<in> I"
  shows "(\<Sum>i \<in> I. \<Sum>j \<in> I. if j = p then g i else 0) = (\<Sum>i \<in> I. g i)"
  using assms by (simp add: sum.delta)

lemma sum_if_both:
  fixes E :: int
  assumes "finite I" "p \<in> I"
  shows "(\<Sum>i \<in> I. \<Sum>j \<in> I. if i = p \<and> j = p then E else 0) = E"
proof -
  have "(\<Sum>i \<in> I. \<Sum>j \<in> I. if i = p \<and> j = p then E else 0)
      = (\<Sum>i \<in> I. if i = p then (\<Sum>j \<in> I. if j = p then E else 0) else 0)"
    by (intro sum.cong) auto
  then show ?thesis using assms by (simp add: sum.delta)
qed

lemma contracted_decomp:
  "contracted G p l i j =
     G ! i ! j + (if i = p then G ! l ! j else 0) + (if j = p then G ! i ! l else 0)
       + (if i = p \<and> j = p then (if l < p then G ! l ! l else 0) - G ! l ! p else 0)"
  by (simp add: contracted_def)

lemma contracted_full:
  assumes "p < length G" "l < length G" "p \<noteq> l"
  defines "I \<equiv> {..<length G} - {l}"
  shows "(\<Sum>i \<in> I. \<Sum>j \<in> I. contracted G p l i j)
           = full_sum G - G ! l ! l - G ! l ! p + (if l < p then G ! l ! l else 0)"
proof -
  have fin: "finite I" and pI: "p \<in> I" using assms by (simp_all add: I_def)
  have "(\<Sum>i \<in> I. \<Sum>j \<in> I. contracted G p l i j)
      = (\<Sum>i \<in> I. \<Sum>j \<in> I. G ! i ! j)
        + (\<Sum>i \<in> I. \<Sum>j \<in> I. if i = p then G ! l ! j else 0)
        + (\<Sum>i \<in> I. \<Sum>j \<in> I. if j = p then G ! i ! l else 0)
        + (\<Sum>i \<in> I. \<Sum>j \<in> I. if i = p \<and> j = p then (if l < p then G ! l ! l else 0) - G ! l ! p else 0)"
    unfolding contracted_decomp by (simp only: sum.distrib)
  also have "\<dots> = (\<Sum>i \<in> I. \<Sum>j \<in> I. G ! i ! j) + (\<Sum>j \<in> I. G ! l ! j) + (\<Sum>i \<in> I. G ! i ! l)
        + ((if l < p then G ! l ! l else 0) - G ! l ! p)"
    by (simp only: sum_if_row [OF fin pI] sum_if_col [OF fin pI] sum_if_both [OF fin pI])
  finally show ?thesis
    using full_sum_split [OF assms(2)] by (simp add: I_def)
qed

lemma contracted_diag:
  assumes "p < length G" "l < length G" "p \<noteq> l"
  defines "I \<equiv> {..<length G} - {l}"
  shows "(\<Sum>i \<in> I. contracted G p l i i)
           = diag_sum G - G ! l ! l + G ! p ! l + (if l < p then G ! l ! l else 0)"
proof -
  have fin: "finite I" and pI: "p \<in> I" using assms by (simp_all add: I_def)
  have "(\<Sum>i \<in> I. contracted G p l i i)
      = (\<Sum>i \<in> I. G ! i ! i + (if i = p then G ! p ! l + (if l < p then G ! l ! l else 0) else 0))"
    by (intro sum.cong) (auto simp: contracted_def)
  also have "\<dots> = (\<Sum>i \<in> I. G ! i ! i) + (G ! p ! l + (if l < p then G ! l ! l else 0))"
    using fin pI by (simp add: sum.distrib sum.delta)
  also have "(\<Sum>i \<in> I. G ! i ! i) = diag_sum G - G ! l ! l"
    unfolding diag_sum_def I_def using sum_remove_index [OF assms(2), of "\<lambda>i. G ! i ! i"] by simp
  finally show ?thesis by simp
qed

lemma contract_good:
  assumes "square G" "symmetric G" "nonneg G" "fits G" "p < length G" "l < length G" "p \<noteq> l"
  defines "G' \<equiv> erase_at l (map (erase_at l) (merge_vertices (length G) p l G))"
  shows "symmetric G'" "nonneg G'" "total_weight G' \<le> total_weight G"
proof -
  note ce = contract_entries [OF assms(1-7), folded G'_def]
  let ?V' = "length G - 1"
  have sk: "\<And>a. a < ?V' \<Longrightarrow> skip l a < length G" using skip_less [OF assms(6)] by simp
  show sym: "symmetric G'"
    unfolding symmetric_def using ce(1) ce(3) contracted_sym [OF assms(2,5,6)] sk by simp
  show "nonneg G'"
    unfolding nonneg_def using ce(1) ce(3) contracted_nonneg [OF assms(3,5,6)] sk by simp
  have "full_sum G' = (\<Sum>a \<in> {..<?V'}. \<Sum>b \<in> {..<?V'}. contracted G p l (skip l a) (skip l b))"
    unfolding full_sum_def ce(1) using ce(3) by (intro sum.cong) auto
  also have "\<dots> = (\<Sum>i \<in> {..<length G} - {l}. \<Sum>j \<in> {..<length G} - {l}. contracted G p l i j)"
    using sum_skip [OF assms(6)] by simp
  finally have f: "full_sum G' = full_sum G - G ! l ! l - G ! l ! p + (if l < p then G ! l ! l else 0)"
    using contracted_full [OF assms(5,6,7)] by simp
  have "diag_sum G' = (\<Sum>a \<in> {..<?V'}. contracted G p l (skip l a) (skip l a))"
    unfolding diag_sum_def ce(1) using ce(3) by (intro sum.cong) auto
  also have "\<dots> = (\<Sum>i \<in> {..<length G} - {l}. contracted G p l i i)"
    using sum_skip [OF assms(6), of "\<lambda>i. contracted G p l i i"] by simp
  finally have d: "diag_sum G' = diag_sum G - G ! l ! l + G ! p ! l + (if l < p then G ! l ! l else 0)"
    using contracted_diag [OF assms(5,6,7)] by simp
  have "2 * total_weight G' = full_sum G' + diag_sum G'"
    using sym by (rule total_weight_full_diag)
  moreover have "2 * total_weight G = full_sum G + diag_sum G"
    using assms(2) by (rule total_weight_full_diag)
  moreover have "G ! l ! p = G ! p ! l" using assms by (simp add: entry_sym)
  moreover have "0 \<le> G ! l ! l" using assms by (simp add: entry_nonneg)
  ultimately show "total_weight G' \<le> total_weight G" using f d by (auto split: if_splits)
qed

section \<open>Cuts of the contracted graph\<close>

lemma skip_inj: "inj (skip l)"
  by (auto simp: inj_on_def skip_def split: if_splits)

lemma skip_image_all: "l < V \<Longrightarrow> skip l ` {..<V - 1} = {..<V} - {l}"
  using skip_bij [of l V] by (simp add: bij_betw_def)

lemma skip_image_diff:
  "l < V \<Longrightarrow> S' \<subseteq> {..<V - 1} \<Longrightarrow> skip l ` ({..<V - 1} - S') = ({..<V} - {l}) - skip l ` S'"
  using skip_image_all [of l V] by (simp add: image_set_diff [OF skip_inj])

lemma cut_weight_contract:
  assumes g: "square G" "symmetric G" "nonneg G" "fits G" "p < length G" "l < length G" "p \<noteq> l"
    and S': "S' \<subseteq> {..<length G - 1}"
  defines "G' \<equiv> erase_at l (map (erase_at l) (merge_vertices (length G) p l G))"
  shows "cut_weight G' S' = cut_weight G (lift p l S')"
proof -
  note ce = contract_entries [OF g, folded G'_def]
  let ?V = "length G"
  let ?I = "{..<?V} - {l}"
  let ?T = "skip l ` S'"
  let ?R = "?I - ?T"
  have T: "?T \<subseteq> ?I" using S' skip_image_all [OF g(6)] by blast
  have finT: "finite ?T" "finite ?R" using T by (auto intro: finite_subset [of _ ?I])
  have "cut_weight G' S' = (\<Sum>a \<in> S'. \<Sum>b \<in> {..<?V - 1} - S'. contracted G p l (skip l a) (skip l b))"
    unfolding cut_weight_def ce(1) using ce(3) S' by (intro sum.cong) auto
  also have "\<dots> = (\<Sum>a \<in> S'. \<Sum>j \<in> skip l ` ({..<?V - 1} - S'). contracted G p l (skip l a) j)"
    by (simp add: sum.reindex [OF inj_on_subset [OF skip_inj subset_UNIV]])
  also have "\<dots> = (\<Sum>i \<in> ?T. \<Sum>j \<in> skip l ` ({..<?V - 1} - S'). contracted G p l i j)"
    by (simp add: sum.reindex [OF inj_on_subset [OF skip_inj subset_UNIV]])
  finally have c: "cut_weight G' S' = (\<Sum>i \<in> ?T. \<Sum>j \<in> ?R. contracted G p l i j)"
    using skip_image_diff [OF g(6) S'] by simp
  show ?thesis
  proof (cases "p \<in> ?T")
    case True
    then have pR: "\<And>j. j \<in> ?R \<Longrightarrow> j \<noteq> p" by auto
    have "(\<Sum>i \<in> ?T. \<Sum>j \<in> ?R. contracted G p l i j)
        = (\<Sum>i \<in> ?T. (\<Sum>j \<in> ?R. G ! i ! j) + (if i = p then (\<Sum>j \<in> ?R. G ! l ! j) else 0))"
    proof (rule sum.cong [OF refl])
      fix i assume "i \<in> ?T"
      have "(\<Sum>j \<in> ?R. contracted G p l i j) = (\<Sum>j \<in> ?R. G ! i ! j + (if i = p then G ! l ! j else 0))"
        using pR by (intro sum.cong) (auto simp: contracted_def)
      then show "(\<Sum>j \<in> ?R. contracted G p l i j)
          = (\<Sum>j \<in> ?R. G ! i ! j) + (if i = p then (\<Sum>j \<in> ?R. G ! l ! j) else 0)"
        by (simp add: sum.distrib)
    qed
    also have "\<dots> = (\<Sum>i \<in> ?T. \<Sum>j \<in> ?R. G ! i ! j) + (\<Sum>j \<in> ?R. G ! l ! j)"
      using finT True by (simp add: sum.distrib sum.delta)
    also have "\<dots> = (\<Sum>i \<in> insert l ?T. \<Sum>j \<in> ?R. G ! i ! j)"
      using finT T by (subst sum.insert) auto
    finally have e: "(\<Sum>i \<in> ?T. \<Sum>j \<in> ?R. contracted G p l i j)
        = (\<Sum>i \<in> insert l ?T. \<Sum>j \<in> ?R. G ! i ! j)" .
    have r: "{..<?V} - insert l ?T = ?R" by auto
    have "cut_weight G (lift p l S') = (\<Sum>i \<in> insert l ?T. \<Sum>j \<in> ?R. G ! i ! j)"
      using True by (simp only: cut_weight_def lift_def if_True r)
    with c e show ?thesis by simp
  next
    case False
    then have pR: "p \<in> ?R" using g(5,7) by auto
    have "(\<Sum>i \<in> ?T. \<Sum>j \<in> ?R. contracted G p l i j)
        = (\<Sum>i \<in> ?T. (\<Sum>j \<in> ?R. G ! i ! j) + G ! i ! l)"
    proof (rule sum.cong [OF refl])
      fix i assume "i \<in> ?T"
      then have ip: "i \<noteq> p" using False by auto
      have "(\<Sum>j \<in> ?R. contracted G p l i j) = (\<Sum>j \<in> ?R. G ! i ! j + (if j = p then G ! i ! l else 0))"
        using ip by (intro sum.cong) (auto simp: contracted_def)
      then show "(\<Sum>j \<in> ?R. contracted G p l i j) = (\<Sum>j \<in> ?R. G ! i ! j) + G ! i ! l"
        using finT pR by (simp add: sum.distrib sum.delta)
    qed
    also have "\<dots> = (\<Sum>i \<in> ?T. \<Sum>j \<in> insert l ?R. G ! i ! j)"
      using finT by (intro sum.cong) auto
    finally have e: "(\<Sum>i \<in> ?T. \<Sum>j \<in> ?R. contracted G p l i j)
        = (\<Sum>i \<in> ?T. \<Sum>j \<in> insert l ?R. G ! i ! j)" .
    have r: "{..<?V} - ?T = insert l ?R" using T g(6) by auto
    have "cut_weight G (lift p l S') = (\<Sum>i \<in> ?T. \<Sum>j \<in> insert l ?R. G ! i ! j)"
      using False by (simp only: cut_weight_def lift_def if_False r)
    with c e show ?thesis by simp
  qed
qed

lemma lift_cut:
  assumes "p < V" "l < V" "p \<noteq> l" "S' \<in> cuts (V - 1)"
  shows "lift p l S' \<in> cuts V" "(p \<in> lift p l S') = (l \<in> lift p l S')"
proof -
  let ?T = "skip l ` S'"
  from assms(4) have S': "S' \<subseteq> {..<V - 1}" "S' \<noteq> {}" "S' \<noteq> {..<V - 1}" by (simp_all add: cuts_def)
  have "?T \<subseteq> skip l ` {..<V - 1}" using S'(1) by (rule image_mono)
  then have T: "?T \<subseteq> {..<V} - {l}" using skip_image_all [OF assms(2)] by simp
  then have lT: "l \<notin> ?T" and TV: "?T \<subseteq> {..<V}" by blast+
  have T0: "?T \<noteq> {}" using S'(2) by simp
  have Tne: "?T \<noteq> {..<V} - {l}"
  proof
    assume "?T = {..<V} - {l}"
    then have "skip l ` S' = skip l ` {..<V - 1}" using skip_image_all [OF assms(2)] by simp
    then have "S' = {..<V - 1}" by (simp only: inj_image_eq_iff [OF skip_inj])
    with S'(3) show False by simp
  qed
  show "(p \<in> lift p l S') = (l \<in> lift p l S')"
  proof (cases "p \<in> ?T")
    case True
    then have e: "lift p l S' = insert l ?T" unfolding lift_def by (rule if_P)
    have "p \<in> insert l ?T" using True by (rule insertI2)
    moreover have "l \<in> insert l ?T" by (rule insertI1)
    ultimately show ?thesis unfolding e by (intro iffI)
  next
    case False
    then have e: "lift p l S' = ?T" unfolding lift_def by (rule if_not_P)
    show ?thesis unfolding e using False lT by (intro iffI) (erule notE, assumption)+
  qed
  show "lift p l S' \<in> cuts V"
  proof (cases "p \<in> ?T")
    case True
    then have e: "lift p l S' = insert l ?T" unfolding lift_def by (rule if_P)
    have "insert l ?T \<noteq> {..<V}"
    proof
      assume h: "insert l ?T = {..<V}"
      from lT have "insert l ?T - {l} = ?T" by (rule Diff_insert_absorb)
      with h have "?T = {..<V} - {l}" by simp
      with Tne show False by simp
    qed
    moreover have "insert l ?T \<subseteq> {..<V}" using TV assms(2) by simp
    moreover have "insert l ?T \<noteq> {}" by simp
    ultimately show ?thesis unfolding e cuts_def by blast
  next
    case False
    then have e: "lift p l S' = ?T" unfolding lift_def by (rule if_not_P)
    have "?T \<noteq> {..<V}" using False assms(1) by blast
    then show ?thesis unfolding e cuts_def using TV T0 by blast
  qed
qed

lemma lift_onto:
  assumes "p < V" "l < V" "p \<noteq> l" "S \<in> cuts V" "(p \<in> S) = (l \<in> S)"
  shows "\<exists>S' \<in> cuts (V - 1). lift p l S' = S"
proof -
  let ?S' = "{a \<in> {..<V - 1}. skip l a \<in> S}"
  from assms(4) have S: "S \<subseteq> {..<V}" "S \<noteq> {}" "S \<noteq> {..<V}" by (auto simp: cuts_def)
  have T: "skip l ` ?S' = S - {l}"
  proof
    show "skip l ` ?S' \<subseteq> S - {l}" using skip_less [OF assms(2)] by auto
    show "S - {l} \<subseteq> skip l ` ?S'"
    proof
      fix y assume y: "y \<in> S - {l}"
      then have "y \<in> {..<V} - {l}" using S(1) by auto
      then obtain a where "a \<in> {..<V - 1}" "y = skip l a"
        using skip_image_all [OF assms(2)] by blast
      then show "y \<in> skip l ` ?S'" using y by auto
    qed
  qed
  have l: "lift p l ?S' = S" using T assms(3,5) by (auto simp: lift_def)
  have "?S' \<noteq> {}"
  proof
    assume "?S' = {}"
    then have "skip l ` ?S' = {}" by (simp only: image_empty)
    with T [symmetric] have "S - {l} = {}" by (rule trans)
    then have "S = {l}" using S(2) by auto
    with assms(3,5) show False by auto
  qed
  moreover have "?S' \<noteq> {..<V - 1}"
  proof
    assume "?S' = {..<V - 1}"
    then have "skip l ` ?S' = skip l ` {..<V - 1}" by (simp only:)
    with T [symmetric] have "S - {l} = skip l ` {..<V - 1}" by (rule trans)
    then have "S - {l} = {..<V} - {l}" using skip_image_all [OF assms(2)] by simp
    then have "p \<in> S" using assms(1,3) by auto
    then have "l \<in> S" using assms(5) by simp
    then have "S = {..<V}" using \<open>S - {l} = {..<V} - {l}\<close> assms(2) by auto
    with S(3) show False by simp
  qed
  ultimately have "?S' \<in> cuts (V - 1)" by (auto simp: cuts_def)
  with l show ?thesis by blast
qed

lemma finite_cuts: "finite (cuts V)"
  by (simp add: cuts_def)

lemma single_cut: "2 \<le> V \<Longrightarrow> l < V \<Longrightarrow> {l} \<in> cuts V"
proof -
  assume a: "2 \<le> V" "l < V"
  have "\<exists>k<V. k \<noteq> l"
  proof (cases "l = 0")
    case True
    then show ?thesis using a by (intro exI [of _ 1]) simp
  next
    case False
    then show ?thesis using a by (intro exI [of _ 0]) simp
  qed
  then have "{l} \<noteq> {..<V}" by auto
  then show ?thesis using a by (auto simp: cuts_def)
qed

lemma min_cut_step:
  assumes g: "square G" "symmetric G" "nonneg G" "fits G" and V: "2 \<le> length G"
    and mo: "ma_order G (length G) (l # p # A)" and all: "set (l # p # A) = {..<length G}"
  defines "G' \<equiv> erase_at l (map (erase_at l) (merge_vertices (length G) p l G))"
  shows "min_cut G = (if length G = 2 then cut_weight G {l} else min (cut_weight G {l}) (min_cut G'))"
proof -
  let ?V = "length G"
  from mo all have pl: "p < ?V" "l < ?V" "p \<noteq> l" by auto
  note ce = contract_entries [OF g pl, folded G'_def]
  have lcut: "{l} \<in> cuts ?V" using V pl by (intro single_cut)
  have ne: "cut_weight G ` cuts ?V \<noteq> {}" using lcut by auto
  have fin: "finite (cut_weight G ` cuts ?V)" by (simp add: finite_cuts)
  have le1: "min_cut G \<le> cut_weight G {l}"
    unfolding min_cut_def using lcut fin by (intro Min_le) auto
  have lower: "cut_weight G {l} \<le> cut_weight G S \<or>
      (cuts (?V - 1) \<noteq> {} \<and> min_cut G' \<le> cut_weight G S)" if "S \<in> cuts ?V" for S
  proof (cases "(l \<in> S) = (p \<in> S)")
    case False
    from that have "S \<subseteq> {..<?V}" by (simp add: cuts_def)
    from cut_of_the_phase [OF refl g(2,3) mo all this False] show ?thesis by simp
  next
    case True
    from lift_onto [OF pl that] True obtain S' where S': "S' \<in> cuts (?V - 1)" "lift p l S' = S" by auto
    then have sub: "S' \<subseteq> {..<?V - 1}" by (simp add: cuts_def)
    have "cut_weight G' S' = cut_weight G S"
      using cut_weight_contract [OF g pl sub] S'(2) by (simp add: G'_def)
    moreover have "min_cut G' \<le> cut_weight G' S'"
      unfolding min_cut_def ce(1) using S'(1) by (intro Min_le) (auto simp: finite_cuts)
    ultimately show ?thesis using S'(1) by auto
  qed
  show ?thesis
  proof (cases "?V = 2")
    case True
    then have "cuts (?V - 1) = {}" by (auto simp: cuts_def)
    with lower have "\<forall>S \<in> cuts ?V. cut_weight G {l} \<le> cut_weight G S" by blast
    then have "cut_weight G {l} \<le> min_cut G"
      unfolding min_cut_def using fin ne by (subst Min_ge_iff) auto
    with le1 True show ?thesis by simp
  next
    case False
    with V have V3: "3 \<le> ?V" by simp
    then have "{0} \<in> cuts (?V - 1)" by (intro single_cut) simp_all
    then have ne': "cut_weight G' ` cuts (?V - 1) \<noteq> {}" by auto
    have "min_cut G' \<in> cut_weight G' ` cuts (length G')"
      unfolding min_cut_def using ne' by (intro Min_in) (simp_all add: finite_cuts ce(1))
    then obtain S' where S': "S' \<in> cuts (?V - 1)" "min_cut G' = cut_weight G' S'"
      using ce(1) by auto
    then have sub: "S' \<subseteq> {..<?V - 1}" by (simp add: cuts_def)
    have "cut_weight G' S' = cut_weight G (lift p l S')"
      using cut_weight_contract [OF g pl sub] by (simp add: G'_def)
    moreover have "min_cut G \<le> cut_weight G (lift p l S')"
      unfolding min_cut_def using lift_cut(1) [OF pl S'(1)] fin by (intro Min_le) auto
    ultimately have le2: "min_cut G \<le> min_cut G'" using S'(2) by simp
    have "\<forall>S \<in> cuts ?V. min (cut_weight G {l}) (min_cut G') \<le> cut_weight G S"
      using lower by (simp add: min_le_iff_disj) blast
    then have "min (cut_weight G {l}) (min_cut G') \<le> min_cut G"
      unfolding min_cut_def using fin ne by (subst Min_ge_iff) auto
    with le1 le2 False show ?thesis by simp
  qed
qed

section \<open>Correctness of the linear-scan engine\<close>

lemma ma_order_full:
  assumes "ma_order G V ord" "length ord = V"
  shows "set ord = {..<V}"
proof -
  from distinct_ma_order [OF assms(1)] have d: "distinct ord" and s: "set ord \<subseteq> {..<V}" by simp_all
  have "card (set ord) = V" using d assms(2) by (simp add: distinct_card)
  then have "card (set ord) = card {..<V}" by simp
  with s show ?thesis by (intro card_subset_eq) simp_all
qed

lemma phase_result:
  assumes g: "symmetric G" "nonneg G" "fits G" and V: "2 \<le> length G"
  shows "\<exists>s l p A. min_cut_phase (length G) G = Inr s \<and> lastv s = l \<and> prev s = Some p \<and>
           ma_order G (length G) (l # p # A) \<and> set (l # p # A) = {..<length G} \<and>
           weight s ! l = cut_weight G {l}"
proof -
  let ?V = "length G"
  have V0: "0 < ?V" using V by linarith
  have i: "phase_inv G ?V [0] (phase_init ?V G)"
    using g V0 by (intro phase_inv_init) simp_all
  have "length [0::nat] + (?V - 1) \<le> ?V" "length [0::nat] + (?V - 1) = ?V" using V by simp_all
  with grow_inv [OF refl g i, of "?V - 1"] obtain s ord where
    s: "grow ?V G (?V - 1) (phase_init ?V G) = Inr s" "phase_inv G ?V ord s" "length ord = ?V"
    by metis
  from s(3) V obtain l p A where ord: "ord = l # p # A"
    by (cases ord; cases "tl ord") auto
  from s(2) have mo: "ma_order G ?V ord" and lv: "lastv s = hd ord"
    and pv: "prev s = (if tl ord = [] then None else Some (hd (tl ord)))"
    and wl: "tl ord \<noteq> [] \<longrightarrow> weight s ! hd ord = conn G (set (tl ord)) (hd ord)"
    by (simp_all add: phase_inv_def)
  have full: "set (l # p # A) = {..<?V}" using ma_order_full [OF mo s(3)] ord by simp
  from mo ord have l: "l < ?V" "l \<notin> set (p # A)" by auto
  have "set (p # A) = {..<?V} - {l}" using full l by auto
  then have "weight s ! l = conn G ({..<?V} - {l}) l" using wl ord by simp
  then have "weight s ! l = cut_weight G {l}" using l(1) by (simp add: cut_weight_single)
  with s(1) mo lv pv ord full show ?thesis
    unfolding min_cut_phase_def by (intro exI [of _ s] exI [of _ l] exI [of _ p] exI [of _ A]) simp
qed

lemma sw_loop_small: "V \<le> 1 \<Longrightarrow> sw_loop V G mincut = Inr (mincut, G)"
  by (subst sw_loop.simps) simp

lemma sw_loop_correct:
  "square G \<Longrightarrow> symmetric G \<Longrightarrow> nonneg G \<Longrightarrow> fits G \<Longrightarrow> length G = n + 2 \<Longrightarrow>
     \<exists>Gf. sw_loop (length G) G mincut = Inr (min mincut (min_cut G), Gf) \<and> length Gf = 1"
proof (induction n arbitrary: G mincut)
  case 0
  let ?V = "length G"
  from 0 have V: "2 \<le> ?V" by simp
  from phase_result [OF 0(2,3,4) V] obtain s l p A where
    s: "min_cut_phase ?V G = Inr s" "lastv s = l" "prev s = Some p"
    "ma_order G ?V (l # p # A)" "set (l # p # A) = {..<?V}" "weight s ! l = cut_weight G {l}"
    by blast
  from s(4,5) have pl: "p < ?V" "l < ?V" "p \<noteq> l" by auto
  let ?G' = "erase_at l (map (erase_at l) (merge_vertices ?V p l G))"
  have r: "remove_vertex ?V l (merge_vertices ?V p l G) = ?G'"
    using merge_vertices_square(2) [OF 0(1) pl] by (intro remove_vertex_conv)
  note ce = contract_entries [OF 0(1-4) pl]
  have m: "min_cut G = cut_weight G {l}"
    using min_cut_step [OF 0(1-4) V s(4,5)] 0(5) by simp
  have "sw_loop ?V G mincut = sw_loop (?V - 1) ?G' (min mincut (cut_weight G {l}))"
    using V s(1,2,3,6) r by (subst sw_loop.simps) simp
  also have "\<dots> = Inr (min mincut (cut_weight G {l}), ?G')"
    using 0(5) by (intro sw_loop_small) simp
  finally show ?case using m ce(1) 0(5) by simp
next
  case (Suc n)
  let ?V = "length G"
  from Suc.prems have V: "2 \<le> ?V" by simp
  from phase_result [OF Suc.prems(2,3,4) V] obtain s l p A where
    s: "min_cut_phase ?V G = Inr s" "lastv s = l" "prev s = Some p"
    "ma_order G ?V (l # p # A)" "set (l # p # A) = {..<?V}" "weight s ! l = cut_weight G {l}"
    by blast
  from s(4,5) have pl: "p < ?V" "l < ?V" "p \<noteq> l" by auto
  let ?G' = "erase_at l (map (erase_at l) (merge_vertices ?V p l G))"
  have r: "remove_vertex ?V l (merge_vertices ?V p l G) = ?G'"
    using merge_vertices_square(2) [OF Suc.prems(1) pl] by (intro remove_vertex_conv)
  note ce = contract_entries [OF Suc.prems(1-4) pl]
  note cg = contract_good [OF Suc.prems(1-4) pl]
  have f': "fits ?G'" using cg(3) Suc.prems(4) by (simp add: fits_def)
  have l': "length ?G' = n + 2" using ce(1) Suc.prems(5) by simp
  have m: "min_cut G = min (cut_weight G {l}) (min_cut ?G')"
    using min_cut_step [OF Suc.prems(1-4) V s(4,5)] Suc.prems(5) by simp
  from Suc.IH [OF ce(2) cg(1,2) f' l', of "min mincut (cut_weight G {l})"]
  obtain Gf where Gf: "sw_loop (length ?G') ?G' (min mincut (cut_weight G {l}))
      = Inr (min (min mincut (cut_weight G {l})) (min_cut ?G'), Gf)" "length Gf = 1" by blast
  have "sw_loop ?V G mincut = sw_loop (?V - 1) ?G' (min mincut (cut_weight G {l}))"
    using V s(1,2,3,6) r by (subst sw_loop.simps) simp
  also have "\<dots> = Inr (min (min mincut (cut_weight G {l})) (min_cut ?G'), Gf)"
    using Gf(1) ce(1) by simp
  finally show ?case using m Gf(2) by (simp add: min.assoc)
qed

lemma cut_weight_nonneg: "nonneg G \<Longrightarrow> S \<subseteq> {..<length G} \<Longrightarrow> 0 \<le> cut_weight G S"
  unfolding cut_weight_def nonneg_def by (intro sum_nonneg) auto

lemma min_cut_bounds:
  assumes "symmetric G" "nonneg G" "2 \<le> length G"
  shows "0 \<le> min_cut G" "min_cut G \<le> total_weight G"
proof -
  have V0: "0 < length G" using assms(3) by linarith
  have c0: "{0} \<in> cuts (length G)" using assms(3) V0 by (intro single_cut)
  have fin: "finite (cut_weight G ` cuts (length G))" by (simp add: finite_cuts)
  have "\<forall>S \<in> cuts (length G). 0 \<le> cut_weight G S"
    using cut_weight_nonneg [OF assms(2)] by (simp add: cuts_def)
  then show "0 \<le> min_cut G"
    unfolding min_cut_def using fin c0 by (subst Min_ge_iff) auto
  have "min_cut G \<le> cut_weight G {0}"
    unfolding min_cut_def using fin c0 by (intro Min_le) auto
  also have "\<dots> = conn G ({..<length G} - {0}) 0" using V0 by (intro cut_weight_single)
  also have "\<dots> \<le> total_weight G" using assms(1,2) V0 by (intro conn_row_le_total)
  finally show "min_cut G \<le> total_weight G" .
qed

lemma stoer_wagner_correct:
  assumes "square G" "symmetric G" "nonneg G" "fits G" "2 \<le> length G"
  shows "\<exists>Gf. stoer_wagner G = Inr (min_cut G, Gf) \<and> length Gf = 1"
proof -
  from assms(5) obtain n where n: "length G = n + 2" by (metis add.commute le_Suc_ex)
  from sw_loop_correct [OF assms(1-4) n, of INT_MAX] obtain Gf where
    Gf: "sw_loop (length G) G INT_MAX = Inr (min INT_MAX (min_cut G), Gf)" "length Gf = 1" by blast
  have "min_cut G \<le> INT_MAX" using min_cut_bounds(2) [OF assms(2,3,5)] assms(4) by (simp add: fits_def)
  with Gf show ?thesis by (simp add: stoer_wagner_def min_def)
qed

lemma stoer_wagner_small: "length G < 2 \<Longrightarrow> stoer_wagner G = Inr (INT_MAX, G)"
  by (simp add: stoer_wagner_def sw_loop_small)

section \<open>The phase of the priority-queue engine\<close>

lemma phase_inv_add:
  assumes g: "length G = V" "symmetric G" "nonneg G" "fits G"
    and inv: "phase_inv G V ord s"
    and m: "m < V" "m \<notin> set ord"
    and mx: "\<forall>j \<in> {..<V} - set ord. weight s ! j \<le> weight s ! m"
  shows "phase_inv G V (m # ord)
             \<lparr>added = (added s)[m := 1],
              weight = update_weights V G m ((added s)[m := 1]) (weight s),
              prev = Some (lastv s), lastv = m\<rparr>"
proof -
  from inv have la: "length (added s) = V" and lw: "length (weight s) = V"
    and mo: "ma_order G V ord" and as: "added_set V (added s) = set ord"
    and lv: "lastv s = hd ord"
    and wi: "\<forall>i \<in> {..<V} - set ord. weight s ! i = conn G (set ord) i"
    by (simp_all add: phase_inv_def)
  from distinct_ma_order [OF mo] have sub: "set ord \<subseteq> {..<V}" and ne: "ord \<noteq> []" by auto
  have un: "added s ! i = 0 \<longleftrightarrow> i \<notin> set ord" if "i < V" for i
    using as that by (auto simp: added_set_def)
  let ?s' = "\<lparr>added = (added s)[m := 1],
              weight = update_weights V G m ((added s)[m := 1]) (weight s),
              prev = Some (lastv s), lastv = m\<rparr>"
  have max: "\<forall>u \<in> {..<V} - set ord. conn G (set ord) u \<le> conn G (set ord) m"
  proof
    fix u assume u: "u \<in> {..<V} - set ord"
    with mx have "weight s ! u \<le> weight s ! m" by simp
    then show "conn G (set ord) u \<le> conn G (set ord) m" using wi u m by simp
  qed
  have mo': "ma_order G V (m # ord)"
    using ma_order_Cons [OF mo] m max by simp
  have as': "added_set V (added ?s') = set (m # ord)"
    using added_set_update [OF m(1) la] as by simp
  have w': "weight ?s' ! j = conn G (set (m # ord)) j" if "j \<in> {..<V} - set (m # ord)" for j
  proof -
    from that have j: "j < V" "j \<noteq> m" "j \<notin> set ord" by auto
    have c: "conn G (insert m (set ord)) j = conn G (set ord) j + G ! j ! m"
      using m(2) by (intro conn_insert) auto
    have "conn G (insert m (set ord)) j \<le> total_weight G"
      using g j sub m(1) by (intro conn_le_total) auto
    then have b: "conn G (set ord) j + G ! j ! m \<le> INT_MAX" using c g(4) by (simp add: fits_def)
    have s: "G ! m ! j = G ! j ! m" using g(1,2) j(1) m(1) by (auto simp: symmetric_def)
    have "0 \<le> conn G (set ord) j" using g j sub by (intro conn_nonneg) auto
    moreover have "0 \<le> G ! j ! m" using g j m(1) by (auto simp: nonneg_def)
    ultimately have "add32 (conn G (set ord) j) (G ! j ! m) = conn G (set ord) j + G ! j ! m"
      using b by (intro add32_id)
    moreover have "(added s)[m := 1] ! j = 0" using j un la by (simp add: nth_list_update)
    moreover have "weight s ! j = conn G (set ord) j" using wi j by simp
    ultimately show ?thesis
      using j(1) lw c s by (simp add: update_weights_conv)
  qed
  have wm: "weight ?s' ! m = conn G (set ord) m"
  proof -
    have "(added s)[m := 1] ! m \<noteq> 0" using m(1) la by simp
    then have "weight ?s' ! m = weight s ! m"
      using m(1) lw by (simp add: update_weights_conv)
    then show ?thesis using wi m by simp
  qed
  show ?thesis
    unfolding phase_inv_def
    using la lw mo' as' w' wm lv ne by (simp add: update_weights_conv)
qed

lemma pq_fold:
  fixes c :: "nat \<Rightarrow> bool" and g :: "nat \<Rightarrow> int"
  defines "st \<equiv> (\<lambda>i (w, q). if c i
             then (let w' = w[i := add32 (w ! i) (g i)] in (w', (w' ! i, i) # q))
             else (w, q))"
  assumes "k \<le> length w"
  shows "length (fst (fold st [0..<k] (w, q))) = length w \<and>
         (\<forall>j<length w. fst (fold st [0..<k] (w, q)) ! j = (if j < k \<and> c j then add32 (w ! j) (g j) else w ! j)) \<and>
         set (snd (fold st [0..<k] (w, q))) = set q \<union> {(add32 (w ! i) (g i), i) | i. i < k \<and> c i}"
  using assms(2)
proof (induction k)
  case 0
  then show ?case by simp
next
  case (Suc k)
  obtain wk qk where f: "fold st [0..<k] (w, q) = (wk, qk)" by (cases "fold st [0..<k] (w, q)") auto
  from Suc f have lk: "length wk = length w"
    and nk: "\<And>j. j < length w \<Longrightarrow> wk ! j = (if j < k \<and> c j then add32 (w ! j) (g j) else w ! j)"
    and sk: "set qk = set q \<union> {(add32 (w ! i) (g i), i) | i. i < k \<and> c i}"
    by auto
  from Suc.prems have k: "k < length w" by simp
  have wkk: "wk ! k = w ! k" using nk [OF k] by simp
  show ?case
  proof (cases "c k")
    case True
    then have e: "fold st [0..<Suc k] (w, q) = (wk[k := add32 (w ! k) (g k)], (add32 (w ! k) (g k), k) # qk)"
      using f k lk wkk by (simp add: st_def Let_def)
    have "{(add32 (w ! i) (g i), i) | i. i < Suc k \<and> c i}
        = insert (add32 (w ! k) (g k), k) {(add32 (w ! i) (g i), i) | i. i < k \<and> c i}"
      using True by (auto simp: less_Suc_eq)
    moreover have "wk[k := add32 (w ! k) (g k)] ! j
        = (if j < Suc k \<and> c j then add32 (w ! j) (g j) else w ! j)" if "j < length w" for j
    proof (cases "j = k")
      case True
      then show ?thesis using lk k \<open>c k\<close> by simp
    next
      case False
      then show ?thesis using nk [OF that] by (simp add: less_Suc_eq)
    qed
    ultimately show ?thesis
      unfolding e using lk sk by simp
  next
    case False
    then have e: "fold st [0..<Suc k] (w, q) = (wk, qk)"
      using f by (simp add: st_def)
    have "{(add32 (w ! i) (g i), i) | i. i < Suc k \<and> c i} = {(add32 (w ! i) (g i), i) | i. i < k \<and> c i}"
      using False by (auto simp: less_Suc_eq)
    moreover have "wk ! j = (if j < Suc k \<and> c j then add32 (w ! j) (g j) else w ! j)"
      if "j < length w" for j
      using nk [OF that] False by (cases "j = k") (simp_all add: less_Suc_eq)
    ultimately show ?thesis
      unfolding e using lk sk by simp
  qed
qed

lemma pq_update_weights_spec:
  assumes "length w = V"
  shows "fst (pq_update_weights V G m ad (w, q)) = update_weights V G m ad w"
    and "set (snd (pq_update_weights V G m ad (w, q)))
           = set q \<union> {(update_weights V G m ad w ! i, i) | i. i < V \<and> ad ! i = 0}"
proof -
  note pf = pq_fold [of V w "\<lambda>i. ad ! i = 0" "\<lambda>i. G ! m ! i" q, folded pq_update_weights_def]
  have l: "V \<le> length w" using assms by simp
  show a: "fst (pq_update_weights V G m ad (w, q)) = update_weights V G m ad w"
    using pf [OF l] assms by (intro nth_equalityI) (simp_all add: update_weights_conv)
  have "{(add32 (w ! i) (G ! m ! i), i) | i. i < V \<and> ad ! i = 0}
      = {(update_weights V G m ad w ! i, i) | i. i < V \<and> ad ! i = 0}"
    using assms by (auto simp: update_weights_conv)
  then show "set (snd (pq_update_weights V G m ad (w, q)))
           = set q \<union> {(update_weights V G m ad w ! i, i) | i. i < V \<and> ad ! i = 0}"
    using pf [OF l] by simp
qed

lemma pq_init_weights_spec:
  shows "length (fst (pq_init_weights V G)) = V"
    and "\<And>j. j < V \<Longrightarrow> fst (pq_init_weights V G) ! j = (if j \<noteq> 0 then add32 0 (G ! 0 ! j) else 0)"
    and "set (snd (pq_init_weights V G)) = {(add32 0 (G ! 0 ! i), i) | i. i < V \<and> i \<noteq> 0}"
proof -
  note pf = pq_fold [of V "replicate V 0" "\<lambda>i. i \<noteq> 0" "\<lambda>i. G ! 0 ! i" "[]", folded pq_init_weights_def]
  show "length (fst (pq_init_weights V G)) = V" using pf by simp
  show "fst (pq_init_weights V G) ! j = (if j \<noteq> 0 then add32 0 (G ! 0 ! j) else 0)" if "j < V" for j
    using pf that by simp
  have "{(add32 (replicate V 0 ! i) (G ! 0 ! i), i) | i. i < V \<and> i \<noteq> 0}
      = {(add32 0 (G ! 0 ! i), i) | i. i < V \<and> i \<noteq> 0}" by auto
  then show "set (snd (pq_init_weights V G)) = {(add32 0 (G ! 0 ! i), i) | i. i < V \<and> i \<noteq> 0}"
    using pf by simp
qed

lemma pq_top_max: "q \<noteq> [] \<Longrightarrow> pq_top q \<in> set q \<and> (\<forall>e \<in> set q. e \<le> pq_top q)"
  unfolding pq_top_def by (simp add: Max_in)

lemma set_pq_pop: "set (pq_pop q) \<subseteq> set q"
  unfolding pq_pop_def by (rule set_remove1_subset)

lemma in_pq_pop: "e \<in> set q \<Longrightarrow> e \<noteq> pq_top q \<Longrightarrow> e \<in> set (pq_pop q)"
  unfolding pq_pop_def by simp

lemma pop_valid_spec:
  "\<exists>e \<in> set q. ad ! snd e = 0 \<Longrightarrow>
   \<exists>x m q'. pop_valid ad q = (Some m, q') \<and> (x, m) \<in> set q \<and> ad ! m = 0 \<and>
     (\<forall>e \<in> set q. ad ! snd e = 0 \<longrightarrow> e \<le> (x, m)) \<and>
     set q' \<subseteq> set q \<and>
     (\<forall>e \<in> set q. ad ! snd e = 0 \<and> snd e \<noteq> m \<longrightarrow> e \<in> set q')"
proof (induction ad q rule: pop_valid.induct)
  case (1 ad q)
  from "1.prems" have ne: "q \<noteq> []" by auto
  note tm = pq_top_max [OF ne]
  show ?case
  proof (cases "ad ! snd (pq_top q) = 0")
    case True
    have pv: "pop_valid ad q = (Some (snd (pq_top q)), pq_pop q)"
      using ne True by (subst pop_valid.simps) simp
    have "(fst (pq_top q), snd (pq_top q)) \<in> set q" using tm by simp
    moreover have "\<forall>e \<in> set q. ad ! snd e = 0 \<longrightarrow> e \<le> (fst (pq_top q), snd (pq_top q))"
      using tm by simp
    moreover have "\<forall>e \<in> set q. ad ! snd e = 0 \<and> snd e \<noteq> snd (pq_top q) \<longrightarrow> e \<in> set (pq_pop q)"
    proof (intro ballI impI)
      fix e assume e: "e \<in> set q" "ad ! snd e = 0 \<and> snd e \<noteq> snd (pq_top q)"
      then have "e \<noteq> pq_top q" by auto
      with e(1) show "e \<in> set (pq_pop q)" by (rule in_pq_pop)
    qed
    ultimately show ?thesis using pv True set_pq_pop by blast
  next
    case False
    have pv: "pop_valid ad q = pop_valid ad (pq_pop q)"
      using ne False by (subst pop_valid.simps) simp
    have keep: "e \<in> set (pq_pop q)" if "e \<in> set q" "ad ! snd e = 0" for e
      using that False by (intro in_pq_pop) auto
    with "1.prems" have "\<exists>e \<in> set (pq_pop q). ad ! snd e = 0" by blast
    from "1.IH" [OF ne False this] obtain x m q' where
      r: "pop_valid ad (pq_pop q) = (Some m, q')" "(x, m) \<in> set (pq_pop q)" "ad ! m = 0"
      "\<forall>e \<in> set (pq_pop q). ad ! snd e = 0 \<longrightarrow> e \<le> (x, m)"
      "set q' \<subseteq> set (pq_pop q)"
      "\<forall>e \<in> set (pq_pop q). ad ! snd e = 0 \<and> snd e \<noteq> m \<longrightarrow> e \<in> set q'"
      by blast
    have "(x, m) \<in> set q" using r(2) set_pq_pop by blast
    moreover have "\<forall>e \<in> set q. ad ! snd e = 0 \<longrightarrow> e \<le> (x, m)" using r(4) keep by blast
    moreover have "set q' \<subseteq> set q" using r(5) set_pq_pop by blast
    moreover have "\<forall>e \<in> set q. ad ! snd e = 0 \<and> snd e \<noteq> m \<longrightarrow> e \<in> set q'"
      using r(6) keep by blast
    ultimately show ?thesis using pv r(1,3) by auto
  qed
qed

lemma pair_le_fst: "(a :: int, i :: nat) \<le> (b, j) \<Longrightarrow> a \<le> b"
  by (auto simp: less_eq_prod_def)

lemma pq_inv_init:
  assumes "length G = V" "symmetric G" "nonneg G" "fits G" "0 < V"
  shows "pq_inv G V [0] (pq_phase_init V G)"
proof -
  note iw = pq_init_weights_spec [where V = V and G = G]
  let ?s = "fst (pq_phase_init V G)"
  have val: "add32 0 (G ! 0 ! i) = conn G {0} i" if "i \<in> {..<V} - {0}" for i
  proof -
    from that have i: "i < V" "i \<noteq> 0" by auto
    have "conn G {0} i \<le> total_weight G"
      using assms i by (intro conn_le_total) auto
    then have "G ! i ! 0 \<le> INT_MAX" using assms(4) by (simp add: conn_def fits_def)
    moreover have "0 \<le> G ! i ! 0" using assms i by (auto simp: nonneg_def)
    moreover have "G ! 0 ! i = G ! i ! 0" using assms i by (auto simp: symmetric_def)
    ultimately show ?thesis using add32_id [of 0 "G ! i ! 0"] by (simp add: conn_def)
  qed
  have w: "weight ?s ! i = conn G {0} i" if "i \<in> {..<V} - {0}" for i
    using that iw(2) [of i] val [OF that] by (simp add: pq_phase_init_def)
  have a: "added_set V (added ?s) = {0}"
    using assms(5) by (auto simp: pq_phase_init_def added_set_def nth_list_update)
  have pi: "phase_inv G V [0] ?s"
    unfolding phase_inv_def using w a assms(5) iw(1)
    by (simp add: pq_phase_init_def)
  have q1: "(weight ?s ! i, i) \<in> set (snd (pq_phase_init V G))" if "i \<in> {..<V} - {0}" for i
    using that iw(2) [of i] iw(3) by (auto simp: pq_phase_init_def)
  have q2: "snd e < V \<and> (snd e \<notin> set [0] \<longrightarrow> fst e \<le> weight ?s ! snd e)"
    if "e \<in> set (snd (pq_phase_init V G))" for e
    using that iw(2) iw(3) by (auto simp: pq_phase_init_def)
  show ?thesis
    unfolding pq_inv_def using pi q1 q2 by (simp add: case_prod_beta)
qed

lemma pq_inv_step:
  assumes g: "length G = V" "symmetric G" "nonneg G" "fits G"
    and inv: "pq_inv G V ord (s, q)" and lt: "length ord < V"
  shows "\<exists>m q'. pop_valid (added s) q = (Some m, q') \<and>
           pq_inv G V (m # ord)
             (\<lparr>added = (added s)[m := 1],
               weight = fst (pq_update_weights V G m ((added s)[m := 1]) (weight s, q')),
               prev = Some (lastv s), lastv = m\<rparr>,
              snd (pq_update_weights V G m ((added s)[m := 1]) (weight s, q')))"
proof -
  from inv have pi: "phase_inv G V ord s"
    and q1: "\<forall>i \<in> {..<V} - set ord. (weight s ! i, i) \<in> set q"
    and q2: "\<forall>e \<in> set q. snd e < V \<and> (snd e \<notin> set ord \<longrightarrow> fst e \<le> weight s ! snd e)"
    by (simp_all add: pq_inv_def)
  from pi have la: "length (added s) = V" and lw: "length (weight s) = V"
    and mo: "ma_order G V ord" and as: "added_set V (added s) = set ord"
    and wi: "\<forall>i \<in> {..<V} - set ord. weight s ! i = conn G (set ord) i"
    by (simp_all add: phase_inv_def)
  from distinct_ma_order [OF mo] have sub: "set ord \<subseteq> {..<V}" by simp
  have un: "added s ! i = 0 \<longleftrightarrow> i \<notin> set ord" if "i < V" for i
    using as that by (auto simp: added_set_def)
  obtain i where i: "i < V" "i \<notin> set ord" using ma_order_outside [OF mo lt] by blast
  then have "(weight s ! i, i) \<in> set q" "added s ! snd (weight s ! i, i) = 0"
    using q1 un by simp_all
  then have "\<exists>e \<in> set q. added s ! snd e = 0" by blast
  from pop_valid_spec [OF this] obtain x m q' where
    r: "pop_valid (added s) q = (Some m, q')" "(x, m) \<in> set q" "added s ! m = 0"
    "\<forall>e \<in> set q. added s ! snd e = 0 \<longrightarrow> e \<le> (x, m)"
    "set q' \<subseteq> set q"
    "\<forall>e \<in> set q. added s ! snd e = 0 \<and> snd e \<noteq> m \<longrightarrow> e \<in> set q'"
    by blast
  from r(2) q2 have mV: "m < V" by auto
  with r(3) un have mn: "m \<notin> set ord" by simp
  have mx: "\<forall>j \<in> {..<V} - set ord. weight s ! j \<le> weight s ! m"
  proof
    fix j assume j: "j \<in> {..<V} - set ord"
    then have "(weight s ! j, j) \<in> set q" "added s ! j = 0" using q1 un by simp_all
    with r(4) have "(weight s ! j, j) \<le> (x, m)" by auto
    then have "weight s ! j \<le> x" by (rule pair_le_fst)
    moreover have "x \<le> weight s ! m" using r(2) q2 mn by auto
    ultimately show "weight s ! j \<le> weight s ! m" by simp
  qed
  let ?ad = "(added s)[m := 1]"
  let ?w' = "update_weights V G m ?ad (weight s)"
  let ?s' = "\<lparr>added = ?ad, weight = ?w', prev = Some (lastv s), lastv = m\<rparr>"
  note us = pq_update_weights_spec [OF lw, where G = G and m = m and ad = ?ad and q = q']
  have pi': "phase_inv G V (m # ord) ?s'"
    using phase_inv_add [OF g pi mV mn mx] .
  then have wi': "\<forall>i \<in> {..<V} - set (m # ord). ?w' ! i = conn G (set (m # ord)) i"
    by (simp add: phase_inv_def)
  have un': "?ad ! j = 0 \<longleftrightarrow> j \<notin> set (m # ord)" if "j < V" for j
    using that un [OF that] la mV by (auto simp: nth_list_update)
  have q1': "(?w' ! j, j) \<in> set (snd (pq_update_weights V G m ?ad (weight s, q')))"
    if "j \<in> {..<V} - set (m # ord)" for j
    using that un' [of j] unfolding us(2) by auto
  have grow: "weight s ! j \<le> ?w' ! j" if "j \<in> {..<V} - set (m # ord)" for j
  proof -
    from that have j: "j < V" "j \<notin> set ord" by auto
    have "conn G (set ord) j \<le> conn G (set (m # ord)) j"
      using g j sub mV by (intro conn_mono) auto
    then show ?thesis using wi wi' that j by simp
  qed
  have q2': "snd e < V \<and> (snd e \<notin> set (m # ord) \<longrightarrow> fst e \<le> ?w' ! snd e)"
    if "e \<in> set (snd (pq_update_weights V G m ?ad (weight s, q')))" for e
  proof -
    from that have "e \<in> set q' \<or> (\<exists>i. e = (?w' ! i, i) \<and> i < V \<and> ?ad ! i = 0)"
      unfolding us(2) by auto
    then show ?thesis
    proof
      assume "e \<in> set q'"
      then have e: "e \<in> set q" using r(5) by blast
      then have v: "snd e < V" using q2 by simp
      moreover have "fst e \<le> ?w' ! snd e" if n: "snd e \<notin> set (m # ord)"
      proof -
        from n have "fst e \<le> weight s ! snd e" using q2 e by simp
        also have "\<dots> \<le> ?w' ! snd e" using grow [of "snd e"] v n by simp
        finally show ?thesis .
      qed
      ultimately show ?thesis by simp
    next
      assume "\<exists>i. e = (?w' ! i, i) \<and> i < V \<and> ?ad ! i = 0"
      then show ?thesis by auto
    qed
  qed
  have "pq_inv G V (m # ord) (?s', snd (pq_update_weights V G m ?ad (weight s, q')))"
    unfolding pq_inv_def using pi' q1' q2' by simp
  then show ?thesis using r(1) us(1) by simp
qed

lemma grow_pq_inv:
  assumes g: "length G = V" "symmetric G" "nonneg G" "fits G"
  shows "pq_inv G V ord (s, q) \<Longrightarrow> length ord + n \<le> V \<Longrightarrow>
     \<exists>s' q' ord'. grow_pq V G n (s, q) = (s', q', 0) \<and> pq_inv G V ord' (s', q') \<and>
        length ord' = length ord + n"
proof (induction n arbitrary: ord s q)
  case 0
  then show ?case by auto
next
  case (Suc n)
  from Suc.prems have lt: "length ord < V" by simp
  from pq_inv_step [OF g Suc.prems(1) lt] obtain m q' where
    m: "pop_valid (added s) q = (Some m, q')"
    "pq_inv G V (m # ord)
             (\<lparr>added = (added s)[m := 1],
               weight = fst (pq_update_weights V G m ((added s)[m := 1]) (weight s, q')),
               prev = Some (lastv s), lastv = m\<rparr>,
              snd (pq_update_weights V G m ((added s)[m := 1]) (weight s, q')))" by blast
  from Suc.IH [OF m(2)] Suc.prems(2) m(1) show ?case by (auto simp: Let_def)
qed

lemma phase_result_pq:
  assumes g: "symmetric G" "nonneg G" "fits G" and V: "2 \<le> length G"
  shows "\<exists>s q l p A. min_cut_phase_pq (length G) G = (s, q, 0) \<and> lastv s = l \<and> prev s = Some p \<and>
           ma_order G (length G) (l # p # A) \<and> set (l # p # A) = {..<length G} \<and>
           weight s ! l = cut_weight G {l}"
proof -
  let ?V = "length G"
  have V0: "0 < ?V" using V by linarith
  have i: "pq_inv G ?V [0] (fst (pq_phase_init ?V G), snd (pq_phase_init ?V G))"
    using pq_inv_init [OF refl g V0] by simp
  have "length [0::nat] + (?V - 1) \<le> ?V" "length [0::nat] + (?V - 1) = ?V" using V by simp_all
  with grow_pq_inv [OF refl g i, of "?V - 1"] obtain s q ord where
    s: "grow_pq ?V G (?V - 1) (pq_phase_init ?V G) = (s, q, 0)" "pq_inv G ?V ord (s, q)"
      "length ord = ?V"
    by (metis prod.collapse)
  from s(2) have pi: "phase_inv G ?V ord s" by (simp add: pq_inv_def)
  from s(3) V obtain l p A where ord: "ord = l # p # A"
    by (cases ord; cases "tl ord") auto
  from pi have mo: "ma_order G ?V ord" and lv: "lastv s = hd ord"
    and pv: "prev s = (if tl ord = [] then None else Some (hd (tl ord)))"
    and wl: "tl ord \<noteq> [] \<longrightarrow> weight s ! hd ord = conn G (set (tl ord)) (hd ord)"
    by (simp_all add: phase_inv_def)
  have full: "set (l # p # A) = {..<?V}" using ma_order_full [OF mo s(3)] ord by simp
  from mo ord have l: "l < ?V" "l \<notin> set (p # A)" by auto
  have "set (p # A) = {..<?V} - {l}" using full l by auto
  then have "weight s ! l = conn G ({..<?V} - {l}) l" using wl ord by simp
  then have "weight s ! l = cut_weight G {l}" using l(1) by (simp add: cut_weight_single)
  with s(1) mo lv pv ord full show ?thesis
    unfolding min_cut_phase_pq_def
    by (intro exI [of _ s] exI [of _ q] exI [of _ l] exI [of _ p] exI [of _ A]) simp
qed

lemma sw_pq_loop_small: "V \<le> 1 \<Longrightarrow> sw_pq_loop V G mincut = mincut"
  by (subst sw_pq_loop.simps) simp

lemma sw_pq_loop_correct:
  "square G \<Longrightarrow> symmetric G \<Longrightarrow> nonneg G \<Longrightarrow> fits G \<Longrightarrow> length G = n + 2 \<Longrightarrow>
     sw_pq_loop (length G) G mincut = min mincut (min_cut G)"
proof (induction n arbitrary: G mincut)
  case 0
  let ?V = "length G"
  from 0 have V: "2 \<le> ?V" by simp
  from phase_result_pq [OF 0(2,3,4) V] obtain s q l p A where
    s: "min_cut_phase_pq ?V G = (s, q, 0)" "lastv s = l" "prev s = Some p"
    "ma_order G ?V (l # p # A)" "set (l # p # A) = {..<?V}" "weight s ! l = cut_weight G {l}"
    by blast
  from s(4,5) have pl: "p < ?V" "l < ?V" "p \<noteq> l" by auto
  let ?G' = "erase_at l (map (erase_at l) (merge_vertices ?V p l G))"
  have m: "min_cut G = cut_weight G {l}"
    using min_cut_step [OF 0(1-4) V s(4,5)] 0(5) by simp
  have "sw_pq_loop ?V G mincut = sw_pq_loop (?V - 1) ?G' (min mincut (cut_weight G {l}))"
    using V s(1,2,3,6) by (subst sw_pq_loop.simps) (simp add: remove_vertex_pq_conv del: sw_pq_loop.simps)
  also have "\<dots> = min mincut (cut_weight G {l})"
    using 0(5) by (intro sw_pq_loop_small) simp
  finally show ?case using m by simp
next
  case (Suc n)
  let ?V = "length G"
  from Suc.prems have V: "2 \<le> ?V" by simp
  from phase_result_pq [OF Suc.prems(2,3,4) V] obtain s q l p A where
    s: "min_cut_phase_pq ?V G = (s, q, 0)" "lastv s = l" "prev s = Some p"
    "ma_order G ?V (l # p # A)" "set (l # p # A) = {..<?V}" "weight s ! l = cut_weight G {l}"
    by blast
  from s(4,5) have pl: "p < ?V" "l < ?V" "p \<noteq> l" by auto
  let ?G' = "erase_at l (map (erase_at l) (merge_vertices ?V p l G))"
  note ce = contract_entries [OF Suc.prems(1-4) pl]
  note cg = contract_good [OF Suc.prems(1-4) pl]
  have f': "fits ?G'" using cg(3) Suc.prems(4) by (simp add: fits_def)
  have l': "length ?G' = n + 2" using ce(1) Suc.prems(5) by simp
  have m: "min_cut G = min (cut_weight G {l}) (min_cut ?G')"
    using min_cut_step [OF Suc.prems(1-4) V s(4,5)] Suc.prems(5) by simp
  note ih = Suc.IH [OF ce(2) cg(1,2) f' l', of "min mincut (cut_weight G {l})"]
  have "sw_pq_loop ?V G mincut = sw_pq_loop (?V - 1) ?G' (min mincut (cut_weight G {l}))"
    using V s(1,2,3,6) by (subst sw_pq_loop.simps) (simp add: remove_vertex_pq_conv del: sw_pq_loop.simps)
  also have "\<dots> = min (min mincut (cut_weight G {l})) (min_cut ?G')"
    using ih ce(1) by simp
  finally show ?case using m by (simp add: min.assoc)
qed

lemma stoer_wagner_pq_correct:
  assumes "square G" "symmetric G" "nonneg G" "fits G" "2 \<le> length G"
  shows "stoer_wagner_pq G = (min_cut G, G)"
proof -
  from assms(5) obtain n where n: "length G = n + 2" by (metis add.commute le_Suc_ex)
  note r = sw_pq_loop_correct [OF assms(1-4) n, of INT_MAX]
  have "min_cut G \<le> INT_MAX" using min_cut_bounds(2) [OF assms(2,3,5)] assms(4) by (simp add: fits_def)
  with r show ?thesis by (simp add: stoer_wagner_pq_def min_def)
qed

lemma stoer_wagner_pq_small: "length G < 2 \<Longrightarrow> stoer_wagner_pq G = (INT_MAX, G)"
  by (simp add: stoer_wagner_pq_def sw_pq_loop_small)

section \<open>The edge weight of the contracted matrix\<close>





lemma spec_graph_valid:
  "square spec_graph" "symmetric spec_graph" "nonneg spec_graph" "fits spec_graph"
  by code_simp+

lemma spec_graph_min_cut: "min_cut spec_graph = 4"
  by code_simp

section \<open>The weights within a phase\<close>

text \<open>
  Claim C6, with the range of \<^verbatim>\<open>int\<close> made explicit. For a square, symmetric matrix of
  non-negative weights whose total edge weight is at most \<^verbatim>\<open>INT_MAX\<close>, the phase of the
  linear-scan engine does not fail, and after the initialization and after each of its
  additions (\<open>n\<close> of them, for every \<open>n < V\<close>) the weight of every vertex not yet added is
  the sum of the weights of its edges to the added vertices.
\<close>

theorem weight_is_connection:
  assumes "square G" "symmetric G" "nonneg G" "fits G" "n < length G"
  shows "\<exists>s. grow (length G) G n (phase_init (length G) G) = Inr s \<and>
           (\<forall>i \<in> {..<length G}. added s ! i = 0 \<longrightarrow>
              weight s ! i = conn G (added_set (length G) (added s)) i)"
proof -
  let ?V = "length G"
  have V0: "0 < ?V" using assms(5) by linarith
  have i: "phase_inv G ?V [0] (phase_init ?V G)"
    using assms(2,3,4) V0 by (intro phase_inv_init) simp_all
  have "length [0::nat] + n \<le> ?V" using assms(5) by simp
  with grow_inv [OF refl assms(2,3,4) i, of n] obtain s ord where
    s: "grow ?V G n (phase_init ?V G) = Inr s" "phase_inv G ?V ord s" by blast
  from s(2) have a: "added_set ?V (added s) = set ord"
    and w: "\<forall>i \<in> {..<?V} - set ord. weight s ! i = conn G (set ord) i"
    by (simp_all add: phase_inv_def)
  have "weight s ! i = conn G (added_set ?V (added s)) i" if "i \<in> {..<?V}" "added s ! i = 0" for i
  proof -
    from that have "i \<notin> added_set ?V (added s)" by (simp add: added_set_def)
    with that(1) w a show ?thesis by simp
  qed
  with s(1) show ?thesis by blast
qed

theorem weight_is_connection_witness:
  "square spec_graph \<and> symmetric spec_graph \<and> nonneg spec_graph \<and> fits spec_graph \<and>
   2 < length spec_graph \<and>
   (\<exists>s. grow (length spec_graph) spec_graph 2 (phase_init (length spec_graph) spec_graph) = Inr s \<and>
      (\<forall>i \<in> {..<length spec_graph}. added s ! i = 0 \<longrightarrow>
         weight s ! i = conn spec_graph (added_set (length spec_graph) (added s)) i))"
proof -
  have l: "2 < length spec_graph" by (simp add: spec_graph_def)
  from weight_is_connection [OF spec_graph_valid l] spec_graph_valid l show ?thesis by blast
qed

text \<open>
  Without the bound the additions wrap around: in the triangle with three edges of
  weight \<open>2 ^ 30\<close> the weight of vertex 2 after the first addition is \<open>- (2 ^ 31)\<close>, and the
  sum of its edges to the added vertices is \<open>2 ^ 31\<close>.
\<close>

theorem weight_wraps_around:
  "square heavy_triangle \<and> symmetric heavy_triangle \<and> nonneg heavy_triangle \<and>
   grow 3 heavy_triangle 1 (phase_init 3 heavy_triangle)
     = Inr \<lparr>added = [1, 1, 0], weight = [0, 1073741824, - 2147483648], prev = Some 0, lastv = 1\<rparr> \<and>
   conn heavy_triangle (added_set 3 [1, 1, 0]) 2 = 2147483648"
  by code_simp

section \<open>The result of the linear-scan engine\<close>

text \<open>
  Claim C4, with the range of \<^verbatim>\<open>int\<close> made explicit. With fewer than two vertices the
  linear-scan engine returns \<^verbatim>\<open>INT_MAX\<close> and leaves the matrix as it is. For a square,
  symmetric matrix of non-negative weights with at least two vertices whose total edge
  weight is at most \<^verbatim>\<open>INT_MAX\<close>, it returns the weight of a minimum cut, which is not
  negative.
\<close>

theorem stoer_wagner_exact:
  "(length G < 2 \<longrightarrow> stoer_wagner G = Inr (INT_MAX, G)) \<and>
   (square G \<and> symmetric G \<and> nonneg G \<and> fits G \<and> 2 \<le> length G \<longrightarrow>
      (\<exists>Gf. stoer_wagner G = Inr (min_cut G, Gf)) \<and> 0 \<le> min_cut G)"
proof (intro conjI impI)
  assume "length G < 2"
  then show "stoer_wagner G = Inr (INT_MAX, G)" by (rule stoer_wagner_small)
next
  assume g: "square G \<and> symmetric G \<and> nonneg G \<and> fits G \<and> 2 \<le> length G"
  then show "\<exists>Gf. stoer_wagner G = Inr (min_cut G, Gf)"
    using stoer_wagner_correct [of G] by blast
  from g show "0 \<le> min_cut G" using min_cut_bounds(1) [of G] by blast
qed

theorem stoer_wagner_exact_witness:
  "length [[0 :: int]] < 2 \<and> stoer_wagner [[0]] = Inr (INT_MAX, [[0]]) \<and>
   square spec_graph \<and> symmetric spec_graph \<and> nonneg spec_graph \<and> fits spec_graph \<and>
   2 \<le> length spec_graph \<and> (\<exists>Gf. stoer_wagner spec_graph = Inr (4, Gf))"
proof -
  have l: "2 \<le> length spec_graph" by (simp add: spec_graph_def)
  from stoer_wagner_exact [of "[[0]]"] have "stoer_wagner [[0]] = Inr (INT_MAX, [[0]])" by simp
  moreover from stoer_wagner_exact [of spec_graph] spec_graph_valid l
  have "\<exists>Gf. stoer_wagner spec_graph = Inr (4, Gf)" by (simp add: spec_graph_min_cut)
  ultimately show ?thesis using spec_graph_valid l by simp
qed

text \<open>
  Without the bound the result is not the minimum cut: on a symmetric matrix of four
  vertices with non-negative entries the engine returns 0, and every cut weighs at
  least 1789569707.
\<close>

theorem stoer_wagner_overflow:
  "square heavy_graph \<and> symmetric heavy_graph \<and> nonneg heavy_graph \<and> 2 \<le> length heavy_graph \<and>
   min_cut heavy_graph = 1789569707 \<and>
   stoer_wagner heavy_graph = Inr (0, [[0]])"
  by code_simp

section \<open>The union-find structure\<close>

lemma uf_invD:
  assumes "uf_inv V d r" "i < V"
  shows "parent d ! i < V" "r i < V" "parent d ! (r i) = r i" "r (parent d ! i) = r i"
    "parent d ! i = i \<Longrightarrow> r i = i" "parent d ! i \<noteq> i \<Longrightarrow> rank d ! i < rank d ! (parent d ! i)"
    "r (r i) = r i"
  using assms unfolding uf_inv_def by auto

lemma uf_inv_init: "uf_inv V (dus_init V) (\<lambda>i. i)"
  by (simp add: uf_inv_def dus_init_def)

lemma roots_init: "roots V (dus_init V) = {..<V}"
  by (auto simp: roots_def dus_init_def)

lemma finite_roots: "finite (roots V d)"
  by (simp add: roots_def)

lemma dus_find_bounded:
  "uf_inv V d r \<Longrightarrow> i < V \<Longrightarrow> \<forall>j < V. rank d ! j \<le> K \<Longrightarrow> K - rank d ! i \<le> n \<Longrightarrow>
     \<exists>d'. dus_find d i = Some (r i, d') \<and> uf_inv V d' r \<and> rank d' = rank d \<and>
          roots V d' = roots V d \<and> rank d ! i \<le> rank d ! (r i)"
proof (induction n arbitrary: i)
  case 0
  have "parent d ! i = i"
  proof (rule ccontr)
    assume ne: "parent d ! i \<noteq> i"
    from uf_invD(6) [OF 0(1,2) ne] uf_invD(1) [OF 0(1,2)] 0(3,4) show False
      by (metis diff_is_0_eq le_zero_eq not_le order.trans)
  qed
  then show ?case using 0(1,2) uf_invD(5) [OF 0(1,2)]
    by (subst dus_find.simps) simp
next
  case (Suc n)
  show ?case
  proof (cases "parent d ! i = i")
    case True
    then show ?thesis using Suc.prems(1,2) uf_invD(5) [OF Suc.prems(1,2)]
      by (subst dus_find.simps) simp
  next
    case False
    let ?j = "parent d ! i"
    note j = uf_invD(1) [OF Suc.prems(1,2)]
    note lt = uf_invD(6) [OF Suc.prems(1,2) False]
    have "rank d ! ?j \<le> K" using Suc.prems(3) j by simp
    with lt Suc.prems(4) have "K - rank d ! ?j \<le> n" by linarith
    from Suc.IH [OF Suc.prems(1) j Suc.prems(3) this] obtain d1 where
      d1: "dus_find d ?j = Some (r ?j, d1)" "uf_inv V d1 r" "rank d1 = rank d"
        "roots V d1 = roots V d" "rank d ! ?j \<le> rank d ! (r ?j)" by blast
    have rj: "r ?j = r i" by (rule uf_invD(4) [OF Suc.prems(1,2)])
    let ?d' = "d1\<lparr>parent := (parent d1)[i := r i]\<rparr>"
    have res: "dus_find d i = Some (r i, ?d')"
      using False d1(1) rj by (subst dus_find.simps) simp
    have ri: "r i < V" by (rule uf_invD(2) [OF Suc.prems(1,2)])
    have inr: "i \<notin> roots V d1" using d1(4) False by (simp add: roots_def)
    then have i1: "parent d1 ! i \<noteq> i" using Suc.prems(2) by (simp add: roots_def)
    have rir: "r i \<in> roots V d1" using uf_invD(3) [OF d1(2) Suc.prems(2)] ri by (simp add: roots_def)
    with inr have ne: "r i \<noteq> i" by auto
    have len: "length (parent d1) = V" "length (rank d1) = V" using d1(2) by (simp_all add: uf_inv_def)
    have p': "parent ?d' ! k = (if k = i then r i else parent d1 ! k)" if "k < V" for k
      using that len Suc.prems(2) by (simp add: nth_list_update)
    have rk: "r k \<noteq> i" if "k < V" for k
    proof
      assume "r k = i"
      then have "parent d1 ! i = i" using uf_invD(3) [OF d1(2) that] by simp
      with i1 show False by simp
    qed
    have inv': "uf_inv V ?d' r"
      unfolding uf_inv_def
    proof (intro conjI allI impI)
      show "length (parent ?d') = V" "length (rank ?d') = V" using len by simp_all
    next
      fix k assume k: "k < V"
      note D = uf_invD [OF d1(2) k]
      show "parent ?d' ! k < V" using p' [OF k] D(1) ri by simp
      show "r k < V" by (rule D(2))
      show "parent ?d' ! (r k) = r k" using p' [OF D(2)] rk [OF k] D(3) by simp
      show "r (parent ?d' ! k) = r k"
        using p' [OF k] D(4) uf_invD(7) [OF d1(2) Suc.prems(2)] by auto
      show "r k = k" if "parent ?d' ! k = k" using that p' [OF k] D(5) ne by (auto split: if_splits)
      show "rank ?d' ! k < rank ?d' ! (parent ?d' ! k)" if "parent ?d' ! k \<noteq> k"
      proof (cases "k = i")
        case True
        then show ?thesis using p' [OF k] d1(3,5) lt rj by simp
      next
        case False
        then show ?thesis using p' [OF k] that D(6) by simp
      qed
    qed
    have rt: "roots V ?d' = roots V d1"
    proof -
      have "parent ?d' ! k = k \<longleftrightarrow> parent d1 ! k = k" if "k < V" for k
        using p' [OF that] ne i1 by auto
      then show ?thesis by (auto simp: roots_def)
    qed
    have "rank d ! i \<le> rank d ! (r i)" using lt d1(5) rj by simp
    with res inv' rt d1(3,4) show ?thesis by (intro exI [of _ ?d']) simp
  qed
qed

lemma dus_find_spec:
  assumes "uf_inv V d r" "i < V"
  shows "\<exists>d'. dus_find d i = Some (r i, d') \<and> uf_inv V d' r \<and> rank d' = rank d \<and>
          roots V d' = roots V d"
proof -
  have len: "length (rank d) = V" using assms(1) by (simp add: uf_inv_def)
  have "\<forall>j < V. rank d ! j \<le> Max (set (rank d))" using len by simp
  from dus_find_bounded [OF assms this le_refl] show ?thesis by blast
qed

lemma uf_link:
  assumes inv: "uf_inv V d r" and ab: "a < V" "b < V" "r a = a" "r b = b" "a \<noteq> b"
    and rk: "rk = rank d \<or> rk = (rank d)[b := rank d ! b + 1]" "rk ! a < rk ! b"
  shows "uf_inv V (d\<lparr>parent := (parent d)[a := b], rank := rk\<rparr>) (\<lambda>k. if r k = a then b else r k)"
    and "roots V (d\<lparr>parent := (parent d)[a := b], rank := rk\<rparr>) = roots V d - {a}"
proof -
  let ?d' = "d\<lparr>parent := (parent d)[a := b], rank := rk\<rparr>"
  let ?r' = "\<lambda>k. if r k = a then b else r k"
  have len: "length (parent d) = V" "length (rank d) = V" using inv by (simp_all add: uf_inv_def)
  have p': "parent ?d' ! k = (if k = a then b else parent d ! k)" if "k < V" for k
    using that len ab(1) by (simp add: nth_list_update)
  have pa: "parent d ! a = a" using uf_invD(3) [OF inv ab(1)] ab(3) by simp
  have pb: "parent d ! b = b" using uf_invD(3) [OF inv ab(2)] ab(4) by simp
  have rkk: "rk ! k = (if k = b \<and> rk \<noteq> rank d then rank d ! b + 1 else rank d ! k)" if "k < V" for k
    using rk(1) that len ab(2) by (auto simp: nth_list_update)
  show "uf_inv V ?d' ?r'"
    unfolding uf_inv_def
  proof (intro conjI allI impI)
    show "length (parent ?d') = V" "length (rank ?d') = V" using len rk(1) by auto
  next
    fix k assume k: "k < V"
    note D = uf_invD [OF inv k]
    show "parent ?d' ! k < V" using p' [OF k] D(1) ab(2) by simp
    show "?r' k < V" using D(2) ab(2) by simp
    show "parent ?d' ! (?r' k) = ?r' k"
      using p' [OF ab(2)] p' [OF D(2)] pb D(3) ab(5) by auto
    show "?r' (parent ?d' ! k) = ?r' k"
      using p' [OF k] D(4) ab(3,4,5) by auto
    show "?r' k = k" if "parent ?d' ! k = k"
      using that p' [OF k] D(5) ab(5) by (auto split: if_splits)
    show "rank ?d' ! k < rank ?d' ! (parent ?d' ! k)" if "parent ?d' ! k \<noteq> k"
    proof (cases "k = a")
      case True
      then show ?thesis using p' [OF k] rk(2) by simp
    next
      case False
      with that p' [OF k] have ne: "parent d ! k \<noteq> k" by simp
      then have kb: "k \<noteq> b" using pb by auto
      have "rank d ! k < rank d ! (parent d ! k)" by (rule D(6) [OF ne])
      moreover have "rank d ! (parent d ! k) \<le> rk ! (parent d ! k)" using rkk [OF D(1)] by simp
      moreover have "rk ! k = rank d ! k" using rkk [OF k] kb by simp
      ultimately show ?thesis using p' [OF k] False by simp
    qed
  qed
  have "parent ?d' ! k = k \<longleftrightarrow> parent d ! k = k \<and> k \<noteq> a" if "k < V" for k
    using p' [OF that] ab(5) by auto
  then show "roots V ?d' = roots V d - {a}" by (auto simp: roots_def)
qed

lemma unionSets_spec:
  assumes inv: "uf_inv V d r" and xy: "x < V" "y < V" "r x = x" "r y = y" "x \<noteq> y"
  shows "\<exists>d' a b. unionSets d x y = Some d' \<and> {a, b} = {x, y} \<and> a \<noteq> b \<and>
           uf_inv V d' (relink r a b) \<and> roots V d' = roots V d - {a}"
proof -
  from dus_find_spec [OF inv xy(1)] obtain d1 where
    d1: "dus_find d x = Some (r x, d1)" "uf_inv V d1 r" "rank d1 = rank d" "roots V d1 = roots V d"
    by blast
  from dus_find_spec [OF d1(2) xy(2)] obtain d2 where
    d2: "dus_find d1 y = Some (r y, d2)" "uf_inv V d2 r" "rank d2 = rank d1" "roots V d2 = roots V d1"
    by blast
  have len: "length (parent d2) = V" "length (rank d2) = V" using d2(2) by (simp_all add: uf_inv_def)
  consider (lt) "rank d2 ! x < rank d2 ! y" | (gt) "rank d2 ! y < rank d2 ! x"
    | (eq) "rank d2 ! x = rank d2 ! y" by linarith
  then show ?thesis
  proof cases
    case lt
    have u: "unionSets d x y = Some (d2\<lparr>parent := (parent d2)[x := y], rank := rank d2\<rparr>)"
      using d1(1) d2(1) xy lt by (simp add: unionSets_def)
    from uf_link [OF d2(2) xy(1,2,3,4,5), of "rank d2"] lt
    have "uf_inv V (d2\<lparr>parent := (parent d2)[x := y], rank := rank d2\<rparr>) (\<lambda>k. if r k = x then y else r k)"
      "roots V (d2\<lparr>parent := (parent d2)[x := y], rank := rank d2\<rparr>) = roots V d2 - {x}"
      by simp_all
    moreover have "relink r x y = (\<lambda>k. if r k = x then y else r k)" by (auto simp: relink_def)
    ultimately show ?thesis using u d1(4) d2(4) xy(5)
      by (intro exI [of _ "d2\<lparr>parent := (parent d2)[x := y], rank := rank d2\<rparr>"] exI [of _ x] exI [of _ y]) simp
  next
    case gt
    have u: "unionSets d x y = Some (d2\<lparr>parent := (parent d2)[y := x], rank := rank d2\<rparr>)"
      using d1(1) d2(1) xy gt by (simp add: unionSets_def)
    from uf_link [OF d2(2) xy(2,1,4,3) xy(5) [symmetric], of "rank d2"] gt
    have "uf_inv V (d2\<lparr>parent := (parent d2)[y := x], rank := rank d2\<rparr>) (\<lambda>k. if r k = y then x else r k)"
      "roots V (d2\<lparr>parent := (parent d2)[y := x], rank := rank d2\<rparr>) = roots V d2 - {y}"
      by simp_all
    moreover have "relink r y x = (\<lambda>k. if r k = y then x else r k)" by (auto simp: relink_def)
    ultimately show ?thesis using u d1(4) d2(4) xy(5)
      by (intro exI [of _ "d2\<lparr>parent := (parent d2)[y := x], rank := rank d2\<rparr>"] exI [of _ y] exI [of _ x]) auto
  next
    case eq
    let ?rk = "(rank d2)[x := rank d2 ! x + 1]"
    have u: "unionSets d x y = Some (d2\<lparr>parent := (parent d2)[y := x], rank := ?rk\<rparr>)"
      using d1(1) d2(1) xy eq by (simp add: unionSets_def)
    have "?rk ! y < ?rk ! x" using eq xy len by (simp add: nth_list_update)
    from uf_link [where rk = ?rk, OF d2(2) xy(2,1,4,3) xy(5) [symmetric] _ this]
    have "uf_inv V (d2\<lparr>parent := (parent d2)[y := x], rank := ?rk\<rparr>) (\<lambda>k. if r k = y then x else r k)"
      "roots V (d2\<lparr>parent := (parent d2)[y := x], rank := ?rk\<rparr>) = roots V d2 - {y}"
      by simp_all
    moreover have "relink r y x = (\<lambda>k. if r k = y then x else r k)" by (auto simp: relink_def)
    ultimately show ?thesis using u d1(4) d2(4) xy(5)
      by (intro exI [of _ "d2\<lparr>parent := (parent d2)[y := x], rank := ?rk\<rparr>"] exI [of _ y] exI [of _ x]) auto
  qed
qed

section \<open>The trial of the shuffle source\<close>

lemma count_cut_spec:
  "uf_inv V d r \<Longrightarrow> \<forall>e \<in> set es. fst e < V \<and> snd e < V \<Longrightarrow>
     count_cut es d c = Some (c + int (length (filter (\<lambda>e. r (fst e) \<noteq> r (snd e)) es)))"
proof (induction es arbitrary: d c)
  case Nil
  then show ?case by simp
next
  case (Cons e es)
  obtain u v where e: "e = (u, v)" by (cases e)
  from Cons.prems(2) e have uv: "u < V" "v < V" by simp_all
  from dus_find_spec [OF Cons.prems(1) uv(1)] obtain d1 where
    d1: "dus_find d u = Some (r u, d1)" "uf_inv V d1 r" by blast
  from dus_find_spec [OF d1(2) uv(2)] obtain d2 where
    d2: "dus_find d1 v = Some (r v, d2)" "uf_inv V d2 r" by blast
  have "\<forall>e \<in> set es. fst e < V \<and> snd e < V" using Cons.prems(2) by simp
  from Cons.IH [OF d2(2) this] show ?case using e d1(1) d2(1) by simp
qed

lemma contract_opt_spec:
  "uf_inv V d r \<Longrightarrow> \<forall>i < V. r i \<in> A \<longleftrightarrow> i \<in> A \<Longrightarrow> int (card (roots V d)) = vertices \<Longrightarrow>
   \<forall>e \<in> set es. fst e < V \<and> snd e < V \<and> (fst e \<in> A \<longleftrightarrow> snd e \<in> A) \<Longrightarrow>
     \<exists>vertices' d' r'. contract_opt es vertices d = Some (vertices', d') \<and> uf_inv V d' r' \<and>
        (\<forall>i < V. r' i \<in> A \<longleftrightarrow> i \<in> A) \<and> int (card (roots V d')) = vertices' \<and>
        (\<forall>i j. r i = r j \<longrightarrow> r' i = r' j) \<and>
        (vertices' \<le> 2 \<or> (\<forall>e \<in> set es. r' (fst e) = r' (snd e)))"
proof (induction es arbitrary: vertices d r)
  case Nil
  then show ?case by auto
next
  case (Cons e es)
  obtain u v where e: "e = (u, v)" by (cases e)
  from Cons.prems(4) e have uv: "u < V" "v < V" "u \<in> A \<longleftrightarrow> v \<in> A" by simp_all
  have rest: "\<forall>e \<in> set es. fst e < V \<and> snd e < V \<and> (fst e \<in> A \<longleftrightarrow> snd e \<in> A)"
    using Cons.prems(4) by simp
  show ?case
  proof (cases "vertices \<le> 2")
    case True
    then have "contract_opt (e # es) vertices d = Some (vertices, d)" using e by simp
    with Cons.prems(1,2,3) True show ?thesis by blast
  next
    case False
    from dus_find_spec [OF Cons.prems(1) uv(1)] obtain d1 where
      d1: "dus_find d u = Some (r u, d1)" "uf_inv V d1 r" "roots V d1 = roots V d" by blast
    from dus_find_spec [OF d1(2) uv(2)] obtain d2 where
      d2: "dus_find d1 v = Some (r v, d2)" "uf_inv V d2 r" "roots V d2 = roots V d1" by blast
    have c2: "int (card (roots V d2)) = vertices" using d1(3) d2(3) Cons.prems(3) by simp
    show ?thesis
    proof (cases "r u = r v")
      case True
      from Cons.IH [OF d2(2) Cons.prems(2) c2 rest] obtain vertices' d' r' where
        r: "contract_opt es vertices d2 = Some (vertices', d')" "uf_inv V d' r'"
          "\<forall>i < V. r' i \<in> A \<longleftrightarrow> i \<in> A" "int (card (roots V d')) = vertices'"
          "\<forall>i j. r i = r j \<longrightarrow> r' i = r' j"
          "vertices' \<le> 2 \<or> (\<forall>e \<in> set es. r' (fst e) = r' (snd e))" by blast
      have f: "contract_opt (e # es) vertices d = Some (vertices', d')"
        using e False d1(1) d2(1) True r(1) by simp
      have "r' u = r' v" using r(5) True by blast
      then have l: "vertices' \<le> 2 \<or> (\<forall>e \<in> set (e # es). r' (fst e) = r' (snd e))"
        using r(6) e by auto
      from f r(2,3,4,5) l show ?thesis by blast
    next
      case ne: False
      note Du = uf_invD [OF d2(2) uv(1)] and Dv = uf_invD [OF d2(2) uv(2)]
      from unionSets_spec [OF d2(2) Du(2) Dv(2) Du(7) Dv(7) ne] obtain d3 a b where
        d3: "unionSets d2 (r u) (r v) = Some d3" "{a, b} = {r u, r v}" "a \<noteq> b"
          "uf_inv V d3 (relink r a b)" "roots V d3 = roots V d2 - {a}" by blast
      let ?r3 = "relink r a b"
      have sides: "r u \<in> A \<longleftrightarrow> r v \<in> A" using Cons.prems(2) uv by simp
      from d3(2) have ab: "a = r u \<and> b = r v \<or> a = r v \<and> b = r u"
        by (auto simp: doubleton_eq_iff)
      then have abA: "a \<in> A \<longleftrightarrow> b \<in> A" using sides by auto
      have side3: "\<forall>i < V. ?r3 i \<in> A \<longleftrightarrow> i \<in> A"
        using Cons.prems(2) abA by (auto simp: relink_def)
      have "a \<in> roots V d2" using ab Du(2,3) Dv(2,3) by (auto simp: roots_def)
      then have "card (roots V d3) = card (roots V d2) - 1" "0 < card (roots V d2)"
        using d3(5) finite_roots [of V d2] by (auto simp: card_gt_0_iff)
      then have c3: "int (card (roots V d3)) = vertices - 1" using c2 by linarith
      from Cons.IH [OF d3(4) side3 c3 rest] obtain vertices' d' r' where
        r: "contract_opt es (vertices - 1) d3 = Some (vertices', d')" "uf_inv V d' r'"
          "\<forall>i < V. r' i \<in> A \<longleftrightarrow> i \<in> A" "int (card (roots V d')) = vertices'"
          "\<forall>i j. ?r3 i = ?r3 j \<longrightarrow> r' i = r' j"
          "vertices' \<le> 2 \<or> (\<forall>e \<in> set es. r' (fst e) = r' (snd e))" by blast
      have f: "contract_opt (e # es) vertices d = Some (vertices', d')"
        using e False d1(1) d2(1) ne d3(1) r(1) by simp
      have "?r3 u = ?r3 v" using ab d3(3) by (auto simp: relink_def)
      then have "r' u = r' v" using r(5) by blast
      then have l: "vertices' \<le> 2 \<or> (\<forall>e \<in> set (e # es). r' (fst e) = r' (snd e))"
        using r(6) e by auto
      have st: "\<forall>i j. r i = r j \<longrightarrow> r' i = r' j"
      proof (intro allI impI)
        fix i j assume "r i = r j"
        then have "?r3 i = ?r3 j" by (simp add: relink_def)
        with r(5) show "r' i = r' j" by blast
      qed
      from f r(2,3,4) st l show ?thesis by blast
    qed
  qed
qed


lemma trial_opt_total:
  assumes "\<forall>e \<in> set es. fst e < V \<and> snd e < V"
  shows "\<exists>c. karger_min_cut_trial_opt V E es = Some c \<and> 0 \<le> c"
proof -
  have side: "\<forall>i < V. i \<in> (UNIV :: nat set) \<longleftrightarrow> i \<in> (UNIV :: nat set)" by simp
  have c: "int (card (roots V (dus_init V))) = int V" by (simp add: roots_init)
  have e: "\<forall>e \<in> set es. fst e < V \<and> snd e < V \<and> (fst e \<in> (UNIV :: nat set) \<longleftrightarrow> snd e \<in> (UNIV :: nat set))"
    using assms by simp
  from contract_opt_spec [OF uf_inv_init side c e] obtain vertices' d' r' where
    r: "contract_opt es (int V) (dus_init V) = Some (vertices', d')" "uf_inv V d' r'" by blast
  have "\<forall>e \<in> set (take E es). fst e < V \<and> snd e < V" using assms by (meson in_set_takeD)
  from count_cut_spec [OF r(2) this, of 0] r(1) show ?thesis
    by (simp add: karger_min_cut_trial_opt_def)
qed


lemma trials_opt_total:
  assumes sh: "\<forall>k es. mset (shuffle k es) = mset es"
    and es: "\<forall>e \<in> set edges. fst e < V \<and> snd e < V"
  shows "\<exists>m es'. trials_opt shuffle V E edges n = Some (m, es') \<and> mset es' = mset edges"
proof (induction n)
  case 0
  then show ?case by simp
next
  case (Suc n)
  then obtain m es' where s: "trials_opt shuffle V E edges n = Some (m, es')" "mset es' = mset edges"
    by blast
  have "set (shuffle n es') = set edges" using sh s(2) by (metis mset_eq_setD)
  with es have "\<forall>e \<in> set (shuffle n es'). fst e < V \<and> snd e < V" by simp
  from trial_opt_total [OF this, of E] obtain c where
    "karger_min_cut_trial_opt V E (shuffle n es') = Some c" by blast
  with s sh show ?case by (simp add: Let_def)
qed


section \<open>The minimum over the trials\<close>

lemma build_edges_in_range: "\<forall>e \<in> set (build_edges G). fst e < length G \<and> snd e < length G"
  by (auto simp: set_build_edges)

lemma driver_opt_total:
  assumes "\<forall>k es. mset (shuffle k es) = mset es"
  shows "\<exists>a. karger_min_cut_opt shuffle G N = Some a"
  using trials_opt_total [OF assms build_edges_in_range [of G], where E = "length (build_edges G)" and n = "nat N"]
  by (auto simp: karger_min_cut_opt_def Let_def)

lemma driver_opt_mono:
  assumes "karger_min_cut_opt shuffle G (N + 1) = Some a"
  shows "\<exists>b. karger_min_cut_opt shuffle G N = Some b \<and> a \<le> b"
proof (cases "nat (N + 1) = nat N")
  case True
  with assms show ?thesis by (simp add: karger_min_cut_opt_def Let_def)
next
  case False
  then have s: "nat (N + 1) = Suc (nat N)" using nat_succ_cases by blast
  from assms obtain es' where
    "trials_opt shuffle (length G) (length (build_edges G)) (build_edges G) (Suc (nat N)) = Some (a, es')"
    by (auto simp: karger_min_cut_opt_def Let_def s)
  from trials_opt_mono [OF this] show ?thesis
    by (auto simp: karger_min_cut_opt_def Let_def)
qed

text \<open>
  The driver of the random-index source keeps the same minimum: whenever its run over
  \<open>N + 1\<close> trials returns a value, the run over the first \<open>N\<close> returned one that is not
  smaller.
\<close>

lemma driver_ver_mono:
  assumes "karger_min_cut_ver rnd G (N + 1) = Some (Inr c)"
  shows "\<exists>d. karger_min_cut_ver rnd G N = Some (Inr d) \<and> c \<le> d"
proof (cases "nat (N + 1) = nat N")
  case True
  with assms show ?thesis by (simp add: karger_min_cut_ver_def Let_def)
next
  case False
  then have s: "nat (N + 1) = Suc (nat N)" using nat_succ_cases by blast
  from assms obtain k' where
    "trials_ver rnd (length G) (length (build_edges G)) (build_edges G) (Suc (nat N)) = Some (Inr (c, k'))"
    unfolding karger_min_cut_ver_def Let_def s
    by (cases "trials_ver rnd (length G) (length (build_edges G)) (build_edges G) (Suc (nat N))")
       (auto simp: map_sum_def split: sum.splits)
  from trials_ver_mono [OF this] show ?thesis
    by (auto simp: karger_min_cut_ver_def Let_def)
qed

lemma lone_edge_graph_edges: "build_edges lone_edge_graph = [(0, Suc 0)]" "length lone_edge_graph = 4"
  by code_simp+

lemma driver_ver_lone_edge:
  "karger_min_cut_ver rnd lone_edge_graph 0 = Some (Inr INT_MAX)"
  "karger_min_cut_ver rnd lone_edge_graph 1 = None"
  by (simp_all add: karger_min_cut_ver_def lone_edge_graph_edges trial_ver_stuck)

lemma triangle_graph_runs:
  "square triangle_graph"
  "karger_min_cut_opt (\<lambda>k es. rev es) triangle_graph 1 = Some 2"
  "karger_min_cut_opt (\<lambda>k es. rev es) triangle_graph 0 = Some INT_MAX"
  by code_simp+

text \<open>
  Claim C9, at an input where the code does not do what the claim says. With shuffles
  that permute the edge list, the driver of kargercppopt.cpp returns for every number
  of trials, and its value over \<open>N + 1\<close> trials is at most its value over the first \<open>N\<close> of
  them. The driver of kargercppver.cpp has no value to compare: on the graph of four
  vertices with the single edge \<open>(0, 1)\<close> its run over no trial returns \<^verbatim>\<open>INT_MAX\<close>, and its
  run over one trial never returns, whatever the random draws are.
\<close>

theorem trials_monotone:
  "(square G \<and> (\<forall>k es. mset (shuffle k es) = mset es) \<longrightarrow>
      (\<exists>a b. karger_min_cut_opt shuffle G (N + 1) = Some a \<and>
         karger_min_cut_opt shuffle G N = Some b \<and> a \<le> b)) \<and>
   karger_min_cut_ver rnd lone_edge_graph 0 = Some (Inr INT_MAX) \<and>
   karger_min_cut_ver rnd lone_edge_graph 1 = None"
proof (intro conjI impI)
  assume "square G \<and> (\<forall>k es. mset (shuffle k es) = mset es)"
  then have sh: "\<forall>k es. mset (shuffle k es) = mset es" by simp
  from driver_opt_total [OF sh, of G "N + 1"] obtain a where
    a: "karger_min_cut_opt shuffle G (N + 1) = Some a" by blast
  from driver_opt_mono [OF a] a
  show "\<exists>a b. karger_min_cut_opt shuffle G (N + 1) = Some a \<and>
         karger_min_cut_opt shuffle G N = Some b \<and> a \<le> b" by blast
qed (rule driver_ver_lone_edge)+

theorem trials_monotone_witness:
  "square triangle_graph \<and> (\<forall>k es. mset ((\<lambda>k es. rev es) k es) = mset (es :: edge list)) \<and>
   karger_min_cut_opt (\<lambda>k es. rev es) triangle_graph (0 + 1) = Some 2 \<and>
   karger_min_cut_opt (\<lambda>k es. rev es) triangle_graph 0 = Some INT_MAX \<and>
   (2 :: int) \<le> INT_MAX"
  using trials_monotone [of triangle_graph "\<lambda>k es. rev es" 0 "\<lambda>k. k"] triangle_graph_runs
  by (simp add: INT_MAX_def)

section \<open>Disconnected graphs\<close>









section \<open>The merge of the last two vertices\<close>







section \<open>The two deterministic engines\<close>

lemma tied_graph_valid:
  "square tied_graph" "symmetric tied_graph" "nonneg tied_graph" "fits tied_graph"
  "2 \<le> length tied_graph" "connected tied_graph"
  by code_simp+

lemma tied_graph_phases:
  "map_sum id lastv (min_cut_phase 4 tied_graph) = Inr 3"
  "lastv (fst (min_cut_phase_pq 4 tied_graph)) = 1"
  "min_cut tied_graph = 5"
  by code_simp+

text \<open>
  Claim C1, with the range of \<^verbatim>\<open>int\<close> made explicit. For a square, symmetric matrix of
  non-negative weights with at least two vertices whose total edge weight is at most
  \<^verbatim>\<open>INT_MAX\<close>, connected or not, the linear-scan engine and the priority-queue engine
  return the same value, the weight of a minimum cut, also where they break ties
  between vertices of maximum weight differently.
\<close>

theorem engines_agree:
  assumes "square G" "symmetric G" "nonneg G" "fits G" "2 \<le> length G"
  shows "\<exists>Gf. stoer_wagner G = Inr (fst (stoer_wagner_pq G), Gf) \<and> fst (stoer_wagner_pq G) = min_cut G"
  using stoer_wagner_correct [OF assms] stoer_wagner_pq_correct [OF assms] by auto

theorem engines_agree_witness:
  "square tied_graph \<and> symmetric tied_graph \<and> nonneg tied_graph \<and> fits tied_graph \<and>
   2 \<le> length tied_graph \<and> connected tied_graph \<and>
   map_sum id lastv (min_cut_phase 4 tied_graph) = Inr 3 \<and>
   lastv (fst (min_cut_phase_pq 4 tied_graph)) = 1 \<and>
   (\<exists>Gf. stoer_wagner tied_graph = Inr (5, Gf)) \<and>
   fst (stoer_wagner_pq tied_graph) = 5"
proof -
  from engines_agree [OF tied_graph_valid(1-5)] obtain Gf where
    "stoer_wagner tied_graph = Inr (fst (stoer_wagner_pq tied_graph), Gf)"
    "fst (stoer_wagner_pq tied_graph) = min_cut tied_graph" by blast
  then have "stoer_wagner tied_graph = Inr (5, Gf)" "fst (stoer_wagner_pq tied_graph) = 5"
    by (simp_all add: tied_graph_phases(3))
  then show ?thesis using tied_graph_valid tied_graph_phases(1,2) by blast
qed

text \<open>
  Without the bound the engines disagree: on a connected graph of four vertices with
  ties the additions wrap around, and the two orders of the vertices lead to different
  results.
\<close>

theorem engines_disagree:
  "square heavy_tied_graph \<and> symmetric heavy_tied_graph \<and> nonneg heavy_tied_graph \<and>
   2 \<le> length heavy_tied_graph \<and> connected heavy_tied_graph \<and>
   stoer_wagner heavy_tied_graph = Inr (178956972, [[357913942]]) \<and>
   fst (stoer_wagner_pq heavy_tied_graph) = 357913942"
  by code_simp

end
